theory Spec2Isabelle
  imports Main "HOL-Library.Multiset"
begin

section \<open>Data model\<close>

text \<open>
  A row of the \<^verbatim>\<open>clients\<close> table. The handler of \<^verbatim>\<open>PUT /api/v1/clients/:id\<close>
  reads and writes the columns \<^verbatim>\<open>id\<close>, \<^verbatim>\<open>status\<close> and \<^verbatim>\<open>priority\<close>; every other
  column of the table travels in the extension part of the record, so all functions
  below are stated on \<open>'a client_scheme\<close>. Priorities are integers (the JavaScript
  numbers of the source are assumed to be integers below \<open>2^53\<close>, where \<^verbatim>\<open>++\<close> and
  \<^verbatim>\<open>--\<close> are exact).
\<close>

record client =
  client_id :: int
  status :: string
  priority :: int

text \<open>
  The two prepared statements of the handler:
  \<^verbatim>\<open>UPDATE clients SET priority = ? WHERE id = ?\<close> and
  \<^verbatim>\<open>UPDATE clients SET status = ?, priority = ? WHERE id = ?\<close>,
  with their arguments in the order of \<^verbatim>\<open>stmt.run\<close>.
\<close>

datatype update =
  SetPriority int int
| SetStatusPriority string int int

fun apply_update :: "update \<Rightarrow> 'a client_scheme \<Rightarrow> 'a client_scheme" where
  "apply_update (SetPriority p i) c = (if client_id c = i then c\<lparr>priority := p\<rparr> else c)"
| "apply_update (SetStatusPriority s p i) c =
     (if client_id c = i then c\<lparr>status := s, priority := p\<rparr> else c)"

text \<open>
  The store: the rows of the table in the order \<^verbatim>\<open>select * from clients\<close> returns
  them, and the updates issued so far, oldest first.
\<close>

record 'a store =
  rows :: "'a client_scheme list"
  issued :: "update list"

definition run :: "update \<Rightarrow> 'a store \<Rightarrow> 'a store" where
  "run u d = \<lparr>rows = map (apply_update u) (rows d), issued = issued d @ [u]\<rparr>"

datatype error = InvalidId

section \<open>The handler of PUT /api/v1/clients/:id\<close>

text \<open>
  The request body: \<^verbatim>\<open>let { status, priority } = req.body\<close>. A field that is absent
  is \<open>None\<close>. \<^verbatim>\<open>if (status)\<close> and \<^verbatim>\<open>if (priority)\<close> test JavaScript truthiness: the
  empty string and the number 0 are falsy, as an absent field is.
\<close>

definition truthy_status :: "string option \<Rightarrow> bool" where
  "truthy_status s = (case s of None \<Rightarrow> False | Some v \<Rightarrow> v \<noteq> [])"

definition truthy_priority :: "int option \<Rightarrow> bool" where
  "truthy_priority p = (case p of None \<Rightarrow> False | Some v \<Rightarrow> v \<noteq> 0)"

text \<open>
  Lines 163 and 177, the same expression in both loops: the first element of the array
  read at line 125 whose priority is \<^verbatim>\<open>currentPriority\<close> and whose status is the
  \<^verbatim>\<open>status\<close> of the request body (no element, when the body has none).
  Then one iteration of the loop at lines 161-170 (moving up); the loop state is the
  pair of \<^verbatim>\<open>currentPriority\<close> and the store.
\<close>

definition find_move_client ::
  "'a client_scheme list \<Rightarrow> string option \<Rightarrow> int \<Rightarrow> 'a client_scheme option" where
  "find_move_client clients req_status currentPriority =
     find (\<lambda>moveClient. priority moveClient = currentPriority \<and>
                        Some (status moveClient) = req_status) clients"

definition shift_up_body ::
  "'a client_scheme list \<Rightarrow> string option \<Rightarrow> int \<times> 'a store \<Rightarrow> int \<times> 'a store" where
  "shift_up_body clients req_status s =
     (let currentPriority = fst s;
          moveClient = find_move_client clients req_status currentPriority;
          currentPriority = currentPriority + 1
      in (currentPriority,
          case moveClient of
            Some m \<Rightarrow> run (SetPriority currentPriority (client_id m)) (snd s)
          | None \<Rightarrow> snd s))"

text \<open>One iteration of the loop at lines 175-184 (moving down).\<close>

definition shift_down_body ::
  "'a client_scheme list \<Rightarrow> string option \<Rightarrow> int \<times> 'a store \<Rightarrow> int \<times> 'a store" where
  "shift_down_body clients req_status s =
     (let currentPriority = fst s;
          moveClient = find_move_client clients req_status currentPriority;
          currentPriority = currentPriority - 1
      in (currentPriority,
          case moveClient of
            Some m \<Rightarrow> run (SetPriority currentPriority (client_id m)) (snd s)
          | None \<Rightarrow> snd s))"

text \<open>
  \<^verbatim>\<open>while (currentPriority != oldPriority)\<close>: the loops as they are written, with no
  bound of their own; a run that never leaves the loop is the value \<open>None\<close>.
\<close>

partial_function (option) shift_up_loop ::
  "'a client_scheme list \<Rightarrow> string option \<Rightarrow> int \<Rightarrow> int \<times> 'a store \<Rightarrow> (int \<times> 'a store) option" where
  "shift_up_loop clients req_status oldPriority s =
     (if fst s \<noteq> oldPriority
      then shift_up_loop clients req_status oldPriority (shift_up_body clients req_status s)
      else Some s)"

partial_function (option) shift_down_loop ::
  "'a client_scheme list \<Rightarrow> string option \<Rightarrow> int \<Rightarrow> int \<times> 'a store \<Rightarrow> (int \<times> 'a store) option" where
  "shift_down_loop clients req_status oldPriority s =
     (if fst s \<noteq> oldPriority
      then shift_down_loop clients req_status oldPriority (shift_down_body clients req_status s)
      else Some s)"

text \<open>Lines 151-191: the branch taken when \<^verbatim>\<open>priorityHasChanged\<close>.\<close>

definition priority_branch ::
  "'a client_scheme list \<Rightarrow> 'a client_scheme \<Rightarrow> string option \<Rightarrow> int \<Rightarrow> 'a store \<Rightarrow> 'a store option" where
  "priority_branch clients client req_status p d =
     (let oldPriority = priority client in
      case (if oldPriority > p
            then shift_up_loop clients req_status oldPriority (p, d)
            else shift_down_loop clients req_status oldPriority (p, d)) of
        None \<Rightarrow> None
      | Some s \<Rightarrow> Some (run (SetPriority p (client_id client)) (snd s)))"

text \<open>Lines 202-209: the largest priority of the lane, starting from 0.\<close>

definition max_priority :: "'a client_scheme list \<Rightarrow> string \<Rightarrow> int" where
  "max_priority clients l =
     foldl (\<lambda>maxPriority c.
        if priority c > maxPriority \<and> status c = l then priority c else maxPriority) 0 clients"

text \<open>
  Lines 221-229 and 254-260: the loop over the array fetched again from the store, which
  closes the gap in the old lane. The assignment \<^verbatim>\<open>clients[i].priority -= 1\<close> changes the
  array element only; the array is not read again before the next fetch.
\<close>

definition pull_up :: "'a client_scheme list \<Rightarrow> int \<Rightarrow> string \<Rightarrow> 'a store \<Rightarrow> 'a store" where
  "pull_up clients oldPriority oldStatus d =
     foldl (\<lambda>d c.
        if priority c > oldPriority \<and> status c = oldStatus
        then run (SetPriority (priority c - 1) (client_id c)) d else d) d clients"

text \<open>Lines 192-230: the status has changed and \<^verbatim>\<open>priority\<close> is falsy.\<close>

definition status_only_branch ::
  "'a client_scheme list \<Rightarrow> 'a client_scheme \<Rightarrow> string \<Rightarrow> int \<Rightarrow> 'a store \<Rightarrow> 'a store" where
  "status_only_branch clients client l i d =
     (let oldStatus = status client;
          oldPriority = priority client;
          maxPriority = max_priority clients l;
          newPriority = maxPriority + 1;
          d = run (SetStatusPriority l newPriority i) d;
          clients = rows d
      in pull_up clients oldPriority oldStatus d)"

text \<open>
  Line 237, \<^verbatim>\<open>client.status = status\<close>: \<^verbatim>\<open>client\<close> is the element of the array that
  \<^verbatim>\<open>clients.find(client => client.id === id)\<close> returned, the first one with that id,
  so the assignment changes the array.
\<close>

fun assign_status :: "int \<Rightarrow> string \<Rightarrow> 'a client_scheme list \<Rightarrow> 'a client_scheme list" where
  "assign_status i l [] = []"
| "assign_status i l (c # cs) =
     (if client_id c = i then c\<lparr>status := l\<rparr> # cs else c # assign_status i l cs)"

text \<open>Lines 240-247: making room in the new lane, over the array read at line 125.\<close>

definition push_down :: "'a client_scheme list \<Rightarrow> int \<Rightarrow> string \<Rightarrow> 'a store \<Rightarrow> 'a store" where
  "push_down clients p l d =
     foldl (\<lambda>d c.
        if priority c \<ge> p \<and> status c = l
        then run (SetPriority (priority c + 1) (client_id c)) d else d) d clients"

text \<open>Lines 232-261: the status has changed and \<^verbatim>\<open>priority\<close> is truthy.\<close>

definition status_and_priority_branch ::
  "'a client_scheme list \<Rightarrow> 'a client_scheme \<Rightarrow> string \<Rightarrow> int \<Rightarrow> int \<Rightarrow> 'a store \<Rightarrow> 'a store" where
  "status_and_priority_branch clients client l p i d =
     (let oldStatus = status client;
          oldPriority = priority client;
          clients = assign_status i l clients;
          d = push_down clients p l d;
          d = run (SetStatusPriority l p i) d;
          clients = rows d
      in pull_up clients oldPriority oldStatus d)"

text \<open>
  The handler, lines 117-264. \<^verbatim>\<open>validateId\<close> finds no row exactly when
  \<^verbatim>\<open>clients.find\<close> finds none; the handler then answers 400 and issues no update (it
  does not return after the answer, and what follows throws before any update), which
  is the result \<open>Inl InvalidId\<close>. Otherwise the result is the store after the last
  update; the answer is its \<open>rows\<close> (line 262). The guards of lines 192 and 232 exclude
  each other, so the array \<^verbatim>\<open>clients\<close> that line 240 reads is the one of line 125.
  Each guard is paired with the fields of the body that it has tested, so that a branch
  is given the value of a field only where the guard has found it truthy.
\<close>

definition put_client ::
  "int \<Rightarrow> string option \<Rightarrow> int option \<Rightarrow> 'a store \<Rightarrow> (error + 'a store) option" where
  "put_client i req_status req_priority d =
     (let clients = rows d in
      case find (\<lambda>c. client_id c = i) clients of
        None \<Rightarrow> Some (Inl InvalidId)
      | Some client \<Rightarrow>
         (let statusHasChanged =
                (truthy_status req_status \<and> req_status \<noteq> Some (status client));
              priorityHasChanged =
                (truthy_priority req_priority \<and> req_priority \<noteq> Some (priority client))
          in case (case (priorityHasChanged, req_priority) of
                     (True, Some p) \<Rightarrow> priority_branch clients client req_status p d
                   | _ \<Rightarrow> Some d) of
               None \<Rightarrow> None
             | Some d \<Rightarrow>
                (let d = (case (statusHasChanged \<and> \<not> truthy_priority req_priority, req_status) of
                            (True, Some l) \<Rightarrow> status_only_branch clients client l i d
                          | _ \<Rightarrow> d);
                     d = (case (statusHasChanged \<and> truthy_priority req_priority,
                                req_status, req_priority) of
                            (True, Some l, Some p) \<Rightarrow>
                              status_and_priority_branch clients client l p i d
                          | _ \<Rightarrow> d)
                 in Some (Inr d))))"

section \<open>Auxiliary definitions for the proofs\<close>

text \<open>
  The store after the loop of the priority branch, written with the number of iterations
  that the loop makes (\<open>shift_up_loop_funpow\<close> and \<open>shift_down_loop_funpow\<close> below).
\<close>

definition shifted ::
  "'a client_scheme list \<Rightarrow> string option \<Rightarrow> int \<Rightarrow> int \<Rightarrow> 'a store \<Rightarrow> 'a store" where
  "shifted clients st old p d =
     snd ((if old > p then shift_up_body clients st ^^ nat (old - p)
           else shift_down_body clients st ^^ nat (p - old)) (p, d))"

text \<open>The columns of a row that no statement of the handler assigns.\<close>

definition fixed_columns :: "'a client_scheme \<Rightarrow> int \<times> 'a" where
  "fixed_columns c = (client_id c, client.more c)"

text \<open>
  The clients of the example scenarios of section 8 of the specification, and two more
  clients of the lane in-progress.
\<close>

definition client_A :: client where
  "client_A = \<lparr>client_id = 1, status = ''backlog'', priority = 1\<rparr>"

definition client_B :: client where
  "client_B = \<lparr>client_id = 2, status = ''backlog'', priority = 2\<rparr>"

definition client_C :: client where
  "client_C = \<lparr>client_id = 3, status = ''backlog'', priority = 3\<rparr>"

definition client_D :: client where
  "client_D = \<lparr>client_id = 4, status = ''in-progress'', priority = 1\<rparr>"

definition client_E :: client where
  "client_E = \<lparr>client_id = 5, status = ''in-progress'', priority = 2\<rparr>"

text \<open>
  The clients of a lane, and invariant I1 of the specification: in every lane the
  multiset of priorities is \<open>{1, ..., N}\<close>, \<open>N\<close> the number of clients of the lane. A
  lane that no client is in satisfies it, so the lanes that occur are enough.
\<close>

definition lane :: "string \<Rightarrow> 'a client_scheme list \<Rightarrow> 'a client_scheme list" where
  "lane l cs = filter (\<lambda>c. status c = l) cs"

definition dense :: "string \<Rightarrow> 'a client_scheme list \<Rightarrow> bool" where
  "dense l cs = (mset (map priority (lane l cs)) = mset [1..int (length (lane l cs))])"

definition I1 :: "'a client_scheme list \<Rightarrow> bool" where
  "I1 cs = (\<forall>l \<in> set (map status cs). dense l cs)"

section \<open>The store and the loops\<close>

lemmas example_clients = client_A_def client_B_def client_C_def client_D_def client_E_def

lemma rows_run [simp]: "rows (run u d) = map (apply_update u) (rows d)"
  by (simp add: run_def)

lemma issued_run [simp]: "issued (run u d) = issued d @ [u]"
  by (simp add: run_def)

lemma fst_shift_up_body [simp]: "fst (shift_up_body clients st s) = fst s + 1"
  by (simp add: shift_up_body_def Let_def)

lemma fst_shift_down_body [simp]: "fst (shift_down_body clients st s) = fst s - 1"
  by (simp add: shift_down_body_def Let_def)

lemma fst_shift_up_funpow: "fst ((shift_up_body clients st ^^ n) s) = fst s + int n"
  by (induction n) simp_all

lemma fst_shift_down_funpow: "fst ((shift_down_body clients st ^^ n) s) = fst s - int n"
  by (induction n) simp_all

lemma shift_up_loop_funpow:
  "fst s \<le> old \<Longrightarrow>
   shift_up_loop clients st old s = Some ((shift_up_body clients st ^^ nat (old - fst s)) s)"
proof (induction "nat (old - fst s)" arbitrary: s)
  case 0
  then have "fst s = old" by simp
  then show ?case by (subst shift_up_loop.simps) simp
next
  case (Suc n)
  let ?s' = "shift_up_body clients st s"
  from Suc.hyps(2) have ne: "fst s \<noteq> old" and n: "n = nat (old - fst ?s')" and le: "fst ?s' \<le> old"
    by simp_all
  have "shift_up_loop clients st old s = shift_up_loop clients st old ?s'"
    using ne by (subst shift_up_loop.simps) simp
  also have "\<dots> = Some ((shift_up_body clients st ^^ n) ?s')"
    using Suc.hyps(1) [OF n le] n by simp
  also have "(shift_up_body clients st ^^ n) ?s' = (shift_up_body clients st ^^ Suc n) s"
    by (simp add: funpow_swap1)
  finally show ?case using Suc.hyps(2) by simp
qed

lemma shift_down_loop_funpow:
  "old \<le> fst s \<Longrightarrow>
   shift_down_loop clients st old s = Some ((shift_down_body clients st ^^ nat (fst s - old)) s)"
proof (induction "nat (fst s - old)" arbitrary: s)
  case 0
  then have "fst s = old" by simp
  then show ?case by (subst shift_down_loop.simps) simp
next
  case (Suc n)
  let ?s' = "shift_down_body clients st s"
  from Suc.hyps(2) have ne: "fst s \<noteq> old" and n: "n = nat (fst ?s' - old)" and le: "old \<le> fst ?s'"
    by simp_all
  have "shift_down_loop clients st old s = shift_down_loop clients st old ?s'"
    using ne by (subst shift_down_loop.simps) simp
  also have "\<dots> = Some ((shift_down_body clients st ^^ n) ?s')"
    using Suc.hyps(1) [OF n le] n by simp
  also have "(shift_down_body clients st ^^ n) ?s' = (shift_down_body clients st ^^ Suc n) s"
    by (simp add: funpow_swap1)
  finally show ?case using Suc.hyps(2) by simp
qed

lemma priority_branch_returns:
  "priority_branch clients client st p d =
     Some (run (SetPriority p (client_id client)) (shifted clients st (priority client) p d))"
  by (simp add: priority_branch_def shifted_def shift_up_loop_funpow shift_down_loop_funpow)

section \<open>The cases of the handler\<close>

lemma find_id_sound: "find (\<lambda>c. client_id c = i) cs = Some c \<Longrightarrow> client_id c = i \<and> c \<in> set cs"
  by (induction cs) (auto split: if_splits)

lemma put_client_unchanged:
  assumes "find (\<lambda>c. client_id c = i) (rows d) = Some c"
    and "\<not> (truthy_status rs \<and> rs \<noteq> Some (status c))"
    and "\<not> (truthy_priority rp \<and> rp \<noteq> Some (priority c))"
  shows "put_client i rs rp d = Some (Inr d)"
  using assms by (auto simp: put_client_def Let_def split: option.splits bool.splits)

lemma put_client_priority_only:
  assumes "find (\<lambda>c. client_id c = i) (rows d) = Some c"
    and "\<not> (truthy_status rs \<and> rs \<noteq> Some (status c))"
    and "p \<noteq> 0" and "p \<noteq> priority c"
  shows "put_client i rs (Some p) d =
    Some (Inr (run (SetPriority p i) (shifted (rows d) rs (priority c) p d)))"
  using assms find_id_sound [OF assms(1)]
  by (auto simp: put_client_def Let_def truthy_priority_def priority_branch_returns
      split: option.splits bool.splits)

lemma put_client_status_only:
  assumes "find (\<lambda>c. client_id c = i) (rows d) = Some c"
    and "l \<noteq> []" and "l \<noteq> status c" and "\<not> truthy_priority rp"
  shows "put_client i (Some l) rp d = Some (Inr (status_only_branch (rows d) c l i d))"
  using assms
  by (auto simp: put_client_def Let_def truthy_status_def split: option.splits bool.splits)

lemma put_client_status_and_priority:
  assumes "find (\<lambda>c. client_id c = i) (rows d) = Some c"
    and "l \<noteq> []" and "l \<noteq> status c" and "p \<noteq> 0"
  shows "put_client i (Some l) (Some p) d =
    Some (Inr (status_and_priority_branch (rows d) c l p i
      (if p \<noteq> priority c then run (SetPriority p i) (shifted (rows d) (Some l) (priority c) p d)
       else d)))"
  using assms find_id_sound [OF assms(1)]
  by (auto simp: put_client_def Let_def truthy_status_def truthy_priority_def
      priority_branch_returns split: option.splits bool.splits)

lemma put_client_returns: "\<exists>r. put_client i rs rp d = Some r"
  by (auto simp: put_client_def Let_def priority_branch_returns split: option.splits bool.splits)

lemma find_move_client_None [simp]: "find_move_client clients None cur = None"
  by (simp add: find_move_client_def find_None_iff)

lemma shift_up_body_None: "shift_up_body clients None s = (fst s + 1, snd s)"
  by (simp add: shift_up_body_def)

lemma shift_down_body_None: "shift_down_body clients None s = (fst s - 1, snd s)"
  by (simp add: shift_down_body_def)

lemma snd_shift_up_None: "snd ((shift_up_body clients None ^^ n) s) = snd s"
  by (induction n) (simp_all add: shift_up_body_None)

lemma snd_shift_down_None: "snd ((shift_down_body clients None ^^ n) s) = snd s"
  by (induction n) (simp_all add: shift_down_body_None)

lemma shifted_None [simp]: "shifted clients None old p d = d"
  by (simp add: shifted_def snd_shift_up_None snd_shift_down_None)

section \<open>Columns that are never written\<close>

lemma fixed_columns_apply_update [simp]: "fixed_columns (apply_update u c) = fixed_columns c"
  by (cases u) (simp_all add: fixed_columns_def)

lemma fixed_columns_updates [simp]:
  "fixed_columns (c\<lparr>priority := p\<rparr>) = fixed_columns c"
  "fixed_columns (c\<lparr>status := l\<rparr>) = fixed_columns c"
  by (simp_all add: fixed_columns_def)

lemma fixed_columns_comp [simp]: "fixed_columns \<circ> apply_update u = fixed_columns"
  by (rule ext) simp

lemma fixed_run [simp]: "map fixed_columns (rows (run u d)) = map fixed_columns (rows d)"
  by (simp add: comp_def)

lemma fixed_shift_up_body [simp]:
  "map fixed_columns (rows (snd (shift_up_body clients st s))) = map fixed_columns (rows (snd s))"
  by (simp add: shift_up_body_def Let_def split: option.splits)

lemma fixed_shift_down_body [simp]:
  "map fixed_columns (rows (snd (shift_down_body clients st s))) = map fixed_columns (rows (snd s))"
  by (simp add: shift_down_body_def Let_def split: option.splits)

lemma fixed_shift_up_funpow:
  "map fixed_columns (rows (snd ((shift_up_body clients st ^^ n) s))) = map fixed_columns (rows (snd s))"
  by (induction n) simp_all

lemma fixed_shift_down_funpow:
  "map fixed_columns (rows (snd ((shift_down_body clients st ^^ n) s))) = map fixed_columns (rows (snd s))"
  by (induction n) simp_all

lemma fixed_shifted [simp]:
  "map fixed_columns (rows (shifted clients st old p d)) = map fixed_columns (rows d)"
  by (simp add: shifted_def fixed_shift_up_funpow fixed_shift_down_funpow)

lemma fixed_pull_up [simp]:
  "map fixed_columns (rows (pull_up cs old s d)) = map fixed_columns (rows d)"
  unfolding pull_up_def by (induction cs arbitrary: d) simp_all

lemma fixed_push_down [simp]:
  "map fixed_columns (rows (push_down cs p l d)) = map fixed_columns (rows d)"
  unfolding push_down_def by (induction cs arbitrary: d) simp_all

lemma fixed_status_only_branch [simp]:
  "map fixed_columns (rows (status_only_branch cs c l i d)) = map fixed_columns (rows d)"
  by (simp add: status_only_branch_def Let_def)

lemma fixed_status_and_priority_branch [simp]:
  "map fixed_columns (rows (status_and_priority_branch cs c l p i d)) = map fixed_columns (rows d)"
  by (simp add: status_and_priority_branch_def Let_def)

lemma fixed_put_client:
  "put_client i rs rp d = Some (Inr d') \<Longrightarrow>
   map fixed_columns (rows d') = map fixed_columns (rows d)"
  by (auto simp: put_client_def Let_def priority_branch_returns split: option.splits bool.splits)

lemma fixed_columns_conv:
  "map fixed_columns xs = map fixed_columns ys \<longleftrightarrow>
   map client_id xs = map client_id ys \<and> map client.more xs = map client.more ys"
proof -
  have "map fixed_columns xs = zip (map client_id xs) (map client.more xs)" for xs :: "'a client_scheme list"
    by (induction xs) (simp_all add: fixed_columns_def)
  then show ?thesis
    by (metis length_map map_fst_zip map_snd_zip)
qed

section \<open>Rows after the loops over the array\<close>

lemma find_by_id:
  "distinct (map client_id cs) \<Longrightarrow> r \<in> set cs \<Longrightarrow> find (\<lambda>c. client_id c = client_id r) cs = Some r"
  by (induction cs) (auto simp: image_iff)

lemma rows_foldl_set_priority:
  fixes cs :: "'a client_scheme list" and d :: "'a store"
  assumes "distinct (map client_id cs)"
  shows "rows (foldl (\<lambda>d c. if cond c then run (SetPriority (g c) (client_id c)) d else d) d cs) =
    map (\<lambda>r. case find (\<lambda>c. client_id c = client_id r) cs of
                Some c \<Rightarrow> if cond c then r\<lparr>priority := g c\<rparr> else r
              | None \<Rightarrow> r) (rows d)"
  using assms
proof (induction cs arbitrary: d)
  case Nil
  then show ?case by simp
next
  case (Cons c cs)
  define F where "F = (\<lambda>cs (r :: 'a client_scheme).
     case find (\<lambda>c. client_id c = client_id r) cs of
       Some c \<Rightarrow> if cond c then r\<lparr>priority := g c\<rparr> else r
     | None \<Rightarrow> r)"
  have none: "find (\<lambda>x. client_id x = j) cs = None" if "j = client_id c" for j
    using Cons.prems that by (auto simp: find_None_iff image_iff)
  from Cons.prems have dcs: "distinct (map client_id cs)" by simp
  have IH: "rows (foldl (\<lambda>d c. if cond c then run (SetPriority (g c) (client_id c)) d else d) d cs) =
    map (F cs) (rows d)" for d :: "'a store"
    unfolding F_def by (rule Cons.IH [OF dcs])
  have step: "F cs (if cond c then apply_update (SetPriority (g c) (client_id c)) r else r) = F (c # cs) r"
    for r :: "'a client_scheme"
  proof (cases "client_id r = client_id c")
    case True
    then show ?thesis by (simp add: F_def none split: option.splits)
  next
    case False
    then have "client_id c \<noteq> client_id r" by simp
    with False show ?thesis by (simp add: F_def split: option.splits)
  qed
  have "rows (if cond c then run (SetPriority (g c) (client_id c)) d else d) =
        map (\<lambda>r. if cond c then apply_update (SetPriority (g c) (client_id c)) r else r) (rows d)"
    by simp
  then have "rows (foldl (\<lambda>d c. if cond c then run (SetPriority (g c) (client_id c)) d else d) d (c # cs)) =
    map (F (c # cs)) (rows d)"
    by (simp only: foldl_Cons IH map_map comp_def step)
  then show ?case by (simp only: F_def)
qed

lemma ids_run: "map client_id (rows (run u d)) = map client_id (rows d)"
  using fixed_run [of u d] by (simp only: fixed_columns_conv)

lemma rows_pull_up:
  assumes "distinct (map client_id (rows d))"
  shows "rows (pull_up (rows d) old s d) =
    map (\<lambda>r. if priority r > old \<and> status r = s then r\<lparr>priority := priority r - 1\<rparr> else r) (rows d)"
  unfolding pull_up_def rows_foldl_set_priority [OF assms]
  by (rule map_cong) (simp_all add: find_by_id [OF assms])

lemma foldl_max_priority:
  "foldl (\<lambda>m c. if priority c > m \<and> status c = l then priority c else m) m cs =
     Max (insert m (priority ` {c \<in> set cs. status c = l}))"
proof (induction cs arbitrary: m)
  case Nil
  then show ?case by simp
next
  case (Cons c cs)
  define A where "A = priority ` {c \<in> set cs. status c = l}"
  have fin: "finite A" by (simp add: A_def)
  have IH: "foldl (\<lambda>m c. if priority c > m \<and> status c = l then priority c else m) m cs =
     Max (insert m A)" for m
    unfolding A_def by (rule Cons.IH)
  show ?case
  proof (cases "status c = l")
    case True
    then have eq: "priority ` {x \<in> set (c # cs). status x = l} = insert (priority c) A"
      by (auto simp: A_def)
    have "Max (insert (max m (priority c)) A) = Max (insert m (insert (priority c) A))"
    proof (cases "A = {}")
      case True
      then show ?thesis by simp
    next
      case False
      with fin show ?thesis by (simp add: max.assoc)
    qed
    moreover have "(if priority c > m then priority c else m) = max m (priority c)"
      by simp
    ultimately show ?thesis using True by (simp only: foldl_Cons IH eq simp_thms)
  next
    case False
    then have "priority ` {x \<in> set (c # cs). status x = l} = A" by (auto simp: A_def)
    with False show ?thesis by (simp add: IH)
  qed
qed

lemma max_priority_Max:
  "max_priority cs l = Max (insert 0 (priority ` {c \<in> set cs. status c = l}))"
  by (simp add: max_priority_def foldl_max_priority)

lemma rows_status_only_branch:
  assumes "distinct (map client_id (rows d))"
    and "find (\<lambda>c. client_id c = i) (rows d) = Some c" and "l \<noteq> status c"
  shows "rows (status_only_branch (rows d) c l i d) =
    map (\<lambda>r. if client_id r = i then r\<lparr>status := l, priority := max_priority (rows d) l + 1\<rparr>
              else if priority r > priority c \<and> status r = status c
                   then r\<lparr>priority := priority r - 1\<rparr> else r) (rows d)"
proof -
  let ?u = "SetStatusPriority l (max_priority (rows d) l + 1) i"
  from assms(1) have dist: "distinct (map client_id (rows (run ?u d)))"
    by (simp only: ids_run)
  show ?thesis
    unfolding status_only_branch_def Let_def rows_pull_up [OF dist]
    using assms(3) by (auto simp: comp_def)
qed

section \<open>Claims about single cases of the handler\<close>

text \<open>
  Claim C6. A request whose status and priority are the target's current status and
  priority issues no update: the handler returns the store it was given, rows and list
  of issued updates alike.
\<close>

theorem noop_request:
  assumes "find (\<lambda>c. client_id c = i) (rows d) = Some c"
  shows "put_client i (Some (status c)) (Some (priority c)) d = Some (Inr d)"
  by (rule put_client_unchanged [OF assms]) simp_all

theorem noop_request_witness:
  "find (\<lambda>c. client_id c = 1) (rows \<lparr>rows = [client_A, client_B, client_C], issued = []\<rparr>) = Some client_A \<and>
   put_client 1 (Some ''backlog'') (Some 1) \<lparr>rows = [client_A, client_B, client_C], issued = []\<rparr> =
     Some (Inr \<lparr>rows = [client_A, client_B, client_C], issued = []\<rparr>)"
proof -
  have f: "find (\<lambda>c. client_id c = 1) (rows \<lparr>rows = [client_A, client_B, client_C], issued = []\<rparr>) = Some client_A"
    by (simp add: example_clients)
  from noop_request [OF f] f show ?thesis by (simp add: client_A_def)
qed

text \<open>
  Claim C7. Every call of the handler returns, and when it returns a snapshot, the rows
  of the snapshot carry, position by position, the identifiers and the unwritten columns
  of the rows before the call; so the set of identifiers is the same, and a row differs
  from the row before in its status and priority at most.
\<close>

theorem identifiers_preserved:
  "\<exists>r. put_client i rs rp d = Some r \<and>
     (\<forall>d'. r = Inr d' \<longrightarrow>
        client_id ` set (rows d') = client_id ` set (rows d) \<and>
        map client_id (rows d') = map client_id (rows d) \<and>
        map client.more (rows d') = map client.more (rows d))"
proof -
  obtain r where r: "put_client i rs rp d = Some r"
    using put_client_returns by blast
  have "client_id ` set (rows d') = client_id ` set (rows d) \<and>
        map client_id (rows d') = map client_id (rows d) \<and>
        map client.more (rows d') = map client.more (rows d)" if "r = Inr d'" for d'
  proof -
    from r that have "map fixed_columns (rows d') = map fixed_columns (rows d)"
      by (simp add: fixed_put_client)
    then have m: "map client_id (rows d') = map client_id (rows d)"
      and "map client.more (rows d') = map client.more (rows d)"
      by (simp_all add: fixed_columns_conv)
    moreover from m have "client_id ` set (rows d') = client_id ` set (rows d)"
      by (metis set_map)
    ultimately show ?thesis by simp
  qed
  with r show ?thesis by blast
qed

theorem identifiers_preserved_witness:
  "\<exists>d'. put_client 1 (Some ''in-progress'') None \<lparr>rows = [client_A, client_B, client_D], issued = []\<rparr> = Some (Inr d') \<and>
     rows d' = [client_A\<lparr>status := ''in-progress'', priority := 2\<rparr>, client_B\<lparr>priority := 1\<rparr>, client_D] \<and>
     client_id ` set (rows d') = {1, 2, 4} \<and>
     map client_id (rows d') = [1, 2, 4] \<and>
     map client.more (rows d') = [(), (), ()]"
proof -
  let ?d = "\<lparr>rows = [client_A, client_B, client_D], issued = []\<rparr>"
  have e: "put_client 1 (Some ''in-progress'') None ?d =
    Some (Inr \<lparr>rows = [client_A\<lparr>status := ''in-progress'', priority := 2\<rparr>, client_B\<lparr>priority := 1\<rparr>, client_D],
      issued = [SetStatusPriority ''in-progress'' 2 1, SetPriority 1 2]\<rparr>)"
    by (simp add: put_client_def example_clients truthy_status_def truthy_priority_def
        status_only_branch_def max_priority_def pull_up_def run_def)
  from identifiers_preserved [of 1 "Some ''in-progress''" None ?d] e
  show ?thesis by (auto simp: example_clients)
qed



text \<open>
  Claim C10. A request that names no status and a new priority \<open>p\<close> (not 0, not the
  target's current priority) finds no client in either shift loop; the one update that
  is issued sets the priority of the target to \<open>p\<close>, and every other row is unchanged.
\<close>

theorem priority_without_status:
  assumes "find (\<lambda>c. client_id c = i) (rows d) = Some c"
    and "p \<noteq> 0" and "p \<noteq> priority c"
  shows "(\<forall>cur. find_move_client (rows d) None cur = None) \<and>
    put_client i None (Some p) d =
    Some (Inr \<lparr>rows = map (\<lambda>r. if client_id r = i then r\<lparr>priority := p\<rparr> else r) (rows d),
               issued = issued d @ [SetPriority p i]\<rparr>)"
proof -
  have "put_client i None (Some p) d = Some (Inr (run (SetPriority p i) d))"
    using put_client_priority_only [OF assms(1) _ assms(2,3), of None]
    by (simp add: truthy_status_def)
  moreover have "apply_update (SetPriority p i) = (\<lambda>r. if client_id r = i then r\<lparr>priority := p\<rparr> else r)"
    by (rule ext) simp
  ultimately show ?thesis by (simp add: run_def)
qed

theorem priority_without_status_witness:
  "find (\<lambda>c. client_id c = 1) (rows \<lparr>rows = [client_A, client_B, client_C], issued = []\<rparr>) = Some client_A \<and>
   (3 :: int) \<noteq> 0 \<and> 3 \<noteq> priority client_A \<and>
   put_client 1 None (Some 3) \<lparr>rows = [client_A, client_B, client_C], issued = []\<rparr> =
     Some (Inr \<lparr>rows = [client_A\<lparr>priority := 3\<rparr>, client_B, client_C], issued = [SetPriority 3 1]\<rparr>)"
proof -
  let ?d = "\<lparr>rows = [client_A, client_B, client_C], issued = []\<rparr>"
  have f: "find (\<lambda>c. client_id c = 1) (rows ?d) = Some client_A"
    by (simp add: example_clients)
  have p: "(3 :: int) \<noteq> 0" "3 \<noteq> priority client_A"
    by (simp_all add: example_clients)
  from priority_without_status [OF f p] f p show ?thesis
    by (simp add: example_clients)
qed

section \<open>Lanes\<close>

lemma dense_sort:
  "dense l cs \<longleftrightarrow> sort (map priority (lane l cs)) = [1..int (length (lane l cs))]"
proof
  assume "dense l cs"
  then have "mset [1..int (length (lane l cs))] = mset (map priority (lane l cs))"
    by (simp add: dense_def)
  then show "sort (map priority (lane l cs)) = [1..int (length (lane l cs))]"
    by (rule properties_for_sort) simp
next
  assume "sort (map priority (lane l cs)) = [1..int (length (lane l cs))]"
  then have "mset (sort (map priority (lane l cs))) = mset [1..int (length (lane l cs))]"
    by simp
  then show "dense l cs" by (simp add: dense_def)
qed

lemma dense_empty_lane: "lane l cs = [] \<Longrightarrow> dense l cs"
  by (simp add: dense_def)

lemma I1_all_lanes: "I1 cs \<longleftrightarrow> (\<forall>l. dense l cs)"
proof
  assume inv: "I1 cs"
  show "\<forall>l. dense l cs"
  proof
    fix l
    show "dense l cs"
    proof (cases "l \<in> set (map status cs)")
      case True
      with inv show ?thesis by (auto simp: I1_def)
    next
      case False
      then have "lane l cs = []" by (auto simp: lane_def filter_empty_conv)
      then show ?thesis by (rule dense_empty_lane)
    qed
  qed
next
  assume "\<forall>l. dense l cs"
  then show "I1 cs" by (simp add: I1_def)
qed

lemma max_priority_lane:
  assumes "\<forall>r \<in> set (lane l cs). 0 < priority r"
  shows "max_priority cs l = (if lane l cs = [] then 0 else Max (priority ` set (lane l cs)))"
proof -
  have eq: "{c \<in> set cs. status c = l} = set (lane l cs)" by (auto simp: lane_def)
  show ?thesis
  proof (cases "lane l cs = []")
    case True
    then show ?thesis by (simp add: max_priority_Max eq)
  next
    case False
    define A where "A = priority ` set (lane l cs)"
    from False have ne: "A \<noteq> {}" and fin: "finite A" by (simp_all add: A_def)
    then have "Max A \<in> A" by simp
    with assms have "0 < Max A" by (auto simp: A_def)
    with ne fin have "Max (insert 0 A) = Max A" by simp
    with False show ?thesis by (simp add: max_priority_Max eq A_def)
  qed
qed

lemma find_id_map:
  assumes "\<And>x. client_id (f x) = client_id x"
  shows "find (\<lambda>r. client_id r = i) (map f xs) = map_option f (find (\<lambda>r. client_id r = i) xs)"
  by (induction xs) (simp_all add: assms)

section \<open>A change of status without a priority\<close>

text \<open>
  Claim C4. The clients have distinct identifiers and the priorities of lane \<open>l\<close> are
  positive (section 3 of the specification). A request for the target \<open>c\<close> that names
  a lane \<open>l\<close> other than the target's and no priority returns the rows in which the
  target has status \<open>l\<close> and priority one more than the largest priority of lane \<open>l\<close>
  (1 when the lane is empty), every client of the target's old lane with a priority
  greater than the target's old priority has that priority less one, and every other
  row is as before.
\<close>

theorem status_only_change:
  assumes "distinct (map client_id (rows d))"
    and "find (\<lambda>c. client_id c = i) (rows d) = Some c"
    and "l \<noteq> []" and "l \<noteq> status c"
    and "\<forall>r \<in> set (lane l (rows d)). 0 < priority r"
  shows "\<exists>d'. put_client i (Some l) None d = Some (Inr d') \<and>
    rows d' = map (\<lambda>r.
      if client_id r = i
      then r\<lparr>status := l,
             priority := (if lane l (rows d) = [] then 1
                          else Max (priority ` set (lane l (rows d))) + 1)\<rparr>
      else if status r = status c \<and> priority r > priority c
           then r\<lparr>priority := priority r - 1\<rparr>
           else r) (rows d)"
proof -
  have "put_client i (Some l) None d = Some (Inr (status_only_branch (rows d) c l i d))"
    using assms(2-4) by (intro put_client_status_only) (simp_all add: truthy_priority_def)
  moreover have "max_priority (rows d) l + 1 =
      (if lane l (rows d) = [] then 1 else Max (priority ` set (lane l (rows d))) + 1)"
    by (simp add: max_priority_lane [OF assms(5)])
  ultimately show ?thesis
    using rows_status_only_branch [OF assms(1,2,4)]
    by (auto cong: map_cong)
qed

theorem status_only_change_witness:
  "distinct (map client_id (rows \<lparr>rows = [client_A, client_B, client_D], issued = []\<rparr>)) \<and>
   find (\<lambda>c. client_id c = 1) (rows \<lparr>rows = [client_A, client_B, client_D], issued = []\<rparr>) = Some client_A \<and>
   ''in-progress'' \<noteq> [] \<and> ''in-progress'' \<noteq> status client_A \<and>
   lane ''in-progress'' (rows \<lparr>rows = [client_A, client_B, client_D], issued = []\<rparr>) = [client_D] \<and>
   0 < priority client_D \<and>
   (\<exists>d'. put_client 1 (Some ''in-progress'') None \<lparr>rows = [client_A, client_B, client_D], issued = []\<rparr> = Some (Inr d') \<and>
      rows d' = [client_A\<lparr>status := ''in-progress'', priority := 2\<rparr>, client_B\<lparr>priority := 1\<rparr>, client_D])"
proof -
  let ?d = "\<lparr>rows = [client_A, client_B, client_D], issued = []\<rparr>"
  have 1: "distinct (map client_id (rows ?d))" by (simp add: example_clients)
  have 2: "find (\<lambda>c. client_id c = 1) (rows ?d) = Some client_A" by (simp add: example_clients)
  have 3: "''in-progress'' \<noteq> []" by simp
  have 4: "''in-progress'' \<noteq> status client_A" by (simp add: example_clients)
  have 5: "lane ''in-progress'' (rows ?d) = [client_D]" by (simp add: lane_def example_clients)
  have 6: "0 < priority client_D" by (simp add: example_clients)
  from 5 6 have 7: "\<forall>r \<in> set (lane ''in-progress'' (rows ?d)). 0 < priority r" by simp
  from status_only_change [OF 1 2 3 4 7]
  have "\<exists>d'. put_client 1 (Some ''in-progress'') None ?d = Some (Inr d') \<and>
      rows d' = [client_A\<lparr>status := ''in-progress'', priority := 2\<rparr>, client_B\<lparr>priority := 1\<rparr>, client_D]"
    unfolding 5 by (simp add: example_clients)
  with 1 2 3 4 5 6 show ?thesis by blast
qed

text \<open>
  Claim C9. With a lane \<open>l\<close> other than the target's and the priority 0 in the body, the
  handler does what it does when the body has no priority: it answers with a snapshot,
  and (the identifiers being distinct) the target is in lane \<open>l\<close> with one more than the
  largest priority of that lane, which is at least 1 and not the rank 0 of the request.
\<close>

theorem falsy_priority_is_status_only:
  assumes "distinct (map client_id (rows d))"
    and "find (\<lambda>c. client_id c = i) (rows d) = Some c"
    and "l \<noteq> []" and "l \<noteq> status c"
  shows "put_client i (Some l) (Some 0) d = put_client i (Some l) None d \<and>
    (\<exists>d'. put_client i (Some l) (Some 0) d = Some (Inr d') \<and>
       find (\<lambda>r. client_id r = i) (rows d') =
         Some (c\<lparr>status := l,
                 priority := Max (insert 0 (priority ` set (lane l (rows d)))) + 1\<rparr>) \<and>
       1 \<le> Max (insert 0 (priority ` set (lane l (rows d)))) + 1)"
proof -
  let ?f = "\<lambda>r. if client_id r = i then r\<lparr>status := l, priority := max_priority (rows d) l + 1\<rparr>
              else if priority r > priority c \<and> status r = status c
                   then r\<lparr>priority := priority r - 1\<rparr> else r"
  have zero: "put_client i (Some l) (Some 0) d = Some (Inr (status_only_branch (rows d) c l i d))"
    using assms(2-4) by (intro put_client_status_only) (simp_all add: truthy_priority_def)
  have none: "put_client i (Some l) None d = Some (Inr (status_only_branch (rows d) c l i d))"
    using assms(2-4) by (intro put_client_status_only) (simp_all add: truthy_priority_def)
  have "find (\<lambda>r. client_id r = i) (map ?f (rows d)) =
      map_option ?f (find (\<lambda>r. client_id r = i) (rows d))"
    by (rule find_id_map) simp
  also have "\<dots> = Some (c\<lparr>status := l, priority := max_priority (rows d) l + 1\<rparr>)"
    using assms(2) find_id_sound [OF assms(2)] by simp
  finally have "find (\<lambda>r. client_id r = i) (rows (status_only_branch (rows d) c l i d)) =
      Some (c\<lparr>status := l, priority := max_priority (rows d) l + 1\<rparr>)"
    by (simp only: rows_status_only_branch [OF assms(1,2,4)])
  moreover have "{c \<in> set (rows d). status c = l} = set (lane l (rows d))"
    by (auto simp: lane_def)
  then have "max_priority (rows d) l = Max (insert 0 (priority ` set (lane l (rows d))))"
    by (simp add: max_priority_Max)
  moreover have "0 \<le> Max (insert 0 (priority ` set (lane l (rows d))))"
    by simp
  ultimately show ?thesis using zero none by simp
qed

theorem falsy_priority_is_status_only_witness:
  "distinct (map client_id (rows \<lparr>rows = [client_A, client_B, client_D], issued = []\<rparr>)) \<and>
   find (\<lambda>c. client_id c = 1) (rows \<lparr>rows = [client_A, client_B, client_D], issued = []\<rparr>) = Some client_A \<and>
   ''in-progress'' \<noteq> [] \<and> ''in-progress'' \<noteq> status client_A \<and>
   put_client 1 (Some ''in-progress'') (Some 0) \<lparr>rows = [client_A, client_B, client_D], issued = []\<rparr> =
     put_client 1 (Some ''in-progress'') None \<lparr>rows = [client_A, client_B, client_D], issued = []\<rparr> \<and>
   (\<exists>d'. put_client 1 (Some ''in-progress'') (Some 0) \<lparr>rows = [client_A, client_B, client_D], issued = []\<rparr> = Some (Inr d') \<and>
      find (\<lambda>r. client_id r = 1) (rows d') = Some (client_A\<lparr>status := ''in-progress'', priority := 2\<rparr>))"
proof -
  let ?d = "\<lparr>rows = [client_A, client_B, client_D], issued = []\<rparr>"
  have 1: "distinct (map client_id (rows ?d))" by (simp add: example_clients)
  have 2: "find (\<lambda>c. client_id c = 1) (rows ?d) = Some client_A" by (simp add: example_clients)
  have 3: "''in-progress'' \<noteq> []" by simp
  have 4: "''in-progress'' \<noteq> status client_A" by (simp add: example_clients)
  have 5: "Max (insert 0 (priority ` set (lane ''in-progress'' (rows ?d)))) + 1 = 2"
    by (simp add: lane_def example_clients)
  from falsy_priority_is_status_only [OF 1 2 3 4]
  have "put_client 1 (Some ''in-progress'') (Some 0) ?d = put_client 1 (Some ''in-progress'') None ?d \<and>
   (\<exists>d'. put_client 1 (Some ''in-progress'') (Some 0) ?d = Some (Inr d') \<and>
      find (\<lambda>r. client_id r = 1) (rows d') = Some (client_A\<lparr>status := ''in-progress'', priority := 2\<rparr>))"
    unfolding 5 by blast
  with 1 2 3 4 show ?thesis by blast
qed

section \<open>Rows after the shift loops\<close>

lemma find_move_client_Some:
  "find_move_client cs (Some l) cur = Some m \<Longrightarrow> m \<in> set cs \<and> priority m = cur \<and> status m = l"
  unfolding find_move_client_def by (auto simp: find_Some_iff)

lemma find_move_client_none:
  "find_move_client cs (Some l) cur = None \<Longrightarrow> r \<in> set cs \<Longrightarrow> status r = l \<Longrightarrow> priority r \<noteq> cur"
  unfolding find_move_client_def by (auto simp: find_None_iff)

lemma same_id_same_row:
  "distinct (map client_id cs) \<Longrightarrow> r \<in> set cs \<Longrightarrow> m \<in> set cs \<Longrightarrow> client_id r = client_id m \<Longrightarrow> r = m"
  by (meson distinct_map inj_onD)

lemma same_slot_same_row:
  assumes "inj_on priority (set (lane l cs))"
    and "r \<in> set cs" and "m \<in> set cs" and "status r = l" and "status m = l"
    and "priority r = priority m"
  shows "r = m"
proof -
  from assms(2-5) have "r \<in> set (lane l cs)" "m \<in> set (lane l cs)"
    by (simp_all add: lane_def)
  with assms(1,6) show ?thesis by (meson inj_onD)
qed

lemma shift_up_funpow_state:
  "(shift_up_body cs st ^^ k) (p, d) = (p + int k, snd ((shift_up_body cs st ^^ k) (p, d)))"
  by (simp add: prod_eq_iff fst_shift_up_funpow)

lemma shift_down_funpow_state:
  "(shift_down_body cs st ^^ k) (p, d) = (p - int k, snd ((shift_down_body cs st ^^ k) (p, d)))"
  by (simp add: prod_eq_iff fst_shift_down_funpow)

lemma rows_shift_up:
  fixes cs :: "'a client_scheme list"
  assumes "rows d = cs" and "distinct (map client_id cs)"
    and "inj_on priority (set (lane l cs))"
  shows "(shift_up_body cs (Some l) ^^ k) (p, d) = (p + int k, d') \<Longrightarrow>
    rows d' = map (\<lambda>r. if status r = l \<and> p \<le> priority r \<and> priority r < p + int k
                       then r\<lparr>priority := priority r + 1\<rparr> else r) cs"
proof (induction k arbitrary: d')
  case 0
  have "map (\<lambda>r. if status r = l \<and> p \<le> priority r \<and> priority r < p + int 0
                       then r\<lparr>priority := priority r + 1\<rparr> else r) cs = cs"
    by (rule map_idI) auto
  with 0 assms(1) show ?case by simp
next
  case (Suc k)
  obtain dk where dk: "(shift_up_body cs (Some l) ^^ k) (p, d) = (p + int k, dk)"
    using shift_up_funpow_state by blast
  note IH = Suc.IH [OF dk]
  from Suc.prems dk have d': "d' = snd (shift_up_body cs (Some l) (p + int k, dk))"
    by simp
  show ?case
  proof (cases "find_move_client cs (Some l) (p + int k)")
    case None
    then have "d' = dk" using d' by (simp add: shift_up_body_def)
    moreover have "(status r = l \<and> p \<le> priority r \<and> priority r < p + int (Suc k)) =
        (status r = l \<and> p \<le> priority r \<and> priority r < p + int k)" if "r \<in> set cs" for r
      using find_move_client_none [OF None that] by auto
    ultimately show ?thesis using IH by (simp cong: map_cong)
  next
    case (Some m)
    note m = find_move_client_Some [OF Some]
    have "d' = run (SetPriority (p + int k + 1) (client_id m)) dk"
      using d' Some by (simp add: shift_up_body_def Let_def)
    then have "rows d' = map (\<lambda>r. apply_update (SetPriority (p + int k + 1) (client_id m))
        (if status r = l \<and> p \<le> priority r \<and> priority r < p + int k
         then r\<lparr>priority := priority r + 1\<rparr> else r)) cs"
      by (simp add: IH comp_def)
    also have "\<dots> = map (\<lambda>r. if status r = l \<and> p \<le> priority r \<and> priority r < p + int (Suc k)
                       then r\<lparr>priority := priority r + 1\<rparr> else r) cs"
    proof (rule map_cong [OF refl])
      fix r assume r: "r \<in> set cs"
      show "apply_update (SetPriority (p + int k + 1) (client_id m))
        (if status r = l \<and> p \<le> priority r \<and> priority r < p + int k
         then r\<lparr>priority := priority r + 1\<rparr> else r) =
        (if status r = l \<and> p \<le> priority r \<and> priority r < p + int (Suc k)
                       then r\<lparr>priority := priority r + 1\<rparr> else r)"
      proof (cases "r = m")
        case True
        with m show ?thesis by simp
      next
        case False
        with r m assms(2) have "client_id r \<noteq> client_id m"
          using same_id_same_row by blast
        moreover have "priority r \<noteq> p + int k" if "status r = l"
          using same_slot_same_row [OF assms(3) r _ that, of m] m False by auto
        ultimately show ?thesis by auto
      qed
    qed
    finally show ?thesis .
  qed
qed

lemma rows_shift_down:
  fixes cs :: "'a client_scheme list"
  assumes "rows d = cs" and "distinct (map client_id cs)"
    and "inj_on priority (set (lane l cs))"
  shows "(shift_down_body cs (Some l) ^^ k) (p, d) = (p - int k, d') \<Longrightarrow>
    rows d' = map (\<lambda>r. if status r = l \<and> p - int k < priority r \<and> priority r \<le> p
                       then r\<lparr>priority := priority r - 1\<rparr> else r) cs"
proof (induction k arbitrary: d')
  case 0
  have "map (\<lambda>r. if status r = l \<and> p - int 0 < priority r \<and> priority r \<le> p
                       then r\<lparr>priority := priority r - 1\<rparr> else r) cs = cs"
    by (rule map_idI) auto
  with 0 assms(1) show ?case by simp
next
  case (Suc k)
  obtain dk where dk: "(shift_down_body cs (Some l) ^^ k) (p, d) = (p - int k, dk)"
    using shift_down_funpow_state by blast
  note IH = Suc.IH [OF dk]
  from Suc.prems dk have d': "d' = snd (shift_down_body cs (Some l) (p - int k, dk))"
    by simp
  show ?case
  proof (cases "find_move_client cs (Some l) (p - int k)")
    case None
    then have "d' = dk" using d' by (simp add: shift_down_body_def)
    moreover have "(status r = l \<and> p - int (Suc k) < priority r \<and> priority r \<le> p) =
        (status r = l \<and> p - int k < priority r \<and> priority r \<le> p)" if "r \<in> set cs" for r
      using find_move_client_none [OF None that] by auto
    ultimately show ?thesis using IH by (simp cong: map_cong)
  next
    case (Some m)
    note m = find_move_client_Some [OF Some]
    have "d' = run (SetPriority (p - int k - 1) (client_id m)) dk"
      using d' Some by (simp add: shift_down_body_def Let_def)
    then have "rows d' = map (\<lambda>r. apply_update (SetPriority (p - int k - 1) (client_id m))
        (if status r = l \<and> p - int k < priority r \<and> priority r \<le> p
         then r\<lparr>priority := priority r - 1\<rparr> else r)) cs"
      by (simp add: IH comp_def)
    also have "\<dots> = map (\<lambda>r. if status r = l \<and> p - int (Suc k) < priority r \<and> priority r \<le> p
                       then r\<lparr>priority := priority r - 1\<rparr> else r) cs"
    proof (rule map_cong [OF refl])
      fix r assume r: "r \<in> set cs"
      show "apply_update (SetPriority (p - int k - 1) (client_id m))
        (if status r = l \<and> p - int k < priority r \<and> priority r \<le> p
         then r\<lparr>priority := priority r - 1\<rparr> else r) =
        (if status r = l \<and> p - int (Suc k) < priority r \<and> priority r \<le> p
                       then r\<lparr>priority := priority r - 1\<rparr> else r)"
      proof (cases "r = m")
        case True
        with m show ?thesis by simp
      next
        case False
        with r m assms(2) have "client_id r \<noteq> client_id m"
          using same_id_same_row by blast
        moreover have "priority r \<noteq> p - int k" if "status r = l"
          using same_slot_same_row [OF assms(3) r _ that, of m] m False by auto
        ultimately show ?thesis by auto
      qed
    qed
    finally show ?thesis .
  qed
qed

lemma rows_shifted:
  fixes cs :: "'a client_scheme list"
  assumes "rows d = cs" and "distinct (map client_id cs)"
    and "inj_on priority (set (lane l cs))"
  shows "rows (shifted cs (Some l) old p d) =
    map (\<lambda>r. if status r = l \<and> p \<le> priority r \<and> priority r < old
              then r\<lparr>priority := priority r + 1\<rparr>
              else if status r = l \<and> old < priority r \<and> priority r \<le> p
                   then r\<lparr>priority := priority r - 1\<rparr> else r) cs"
proof (cases "old > p")
  case True
  let ?s = "(shift_up_body cs (Some l) ^^ nat (old - p)) (p, d)"
  from rows_shift_up [OF assms shift_up_funpow_state] True show ?thesis
    by (auto simp: shifted_def cong: map_cong)
next
  case False
  let ?s = "(shift_down_body cs (Some l) ^^ nat (p - old)) (p, d)"
  from rows_shift_down [OF assms shift_down_funpow_state] False show ?thesis
    by (auto simp: shifted_def cong: map_cong)
qed

section \<open>Rows after a change of the priority within the lane\<close>

lemma rows_priority_only:
  fixes d :: "'a store"
  assumes "distinct (map client_id (rows d))"
    and "inj_on priority (set (lane (status c) (rows d)))"
    and "find (\<lambda>c. client_id c = i) (rows d) = Some c"
    and "p \<noteq> 0" and "p \<noteq> priority c"
  shows "\<exists>d'. put_client i (Some (status c)) (Some p) d = Some (Inr d') \<and>
    rows d' = map (\<lambda>r.
      if client_id r = i then r\<lparr>priority := p\<rparr>
      else if status r = status c \<and> p \<le> priority r \<and> priority r < priority c
           then r\<lparr>priority := priority r + 1\<rparr>
           else if status r = status c \<and> priority c < priority r \<and> priority r \<le> p
                then r\<lparr>priority := priority r - 1\<rparr>
                else r) (rows d)"
proof -
  have "put_client i (Some (status c)) (Some p) d =
      Some (Inr (run (SetPriority p i) (shifted (rows d) (Some (status c)) (priority c) p d)))"
    using assms(3-5) by (intro put_client_priority_only) simp_all
  moreover have "rows (run (SetPriority p i) (shifted (rows d) (Some (status c)) (priority c) p d)) =
      map (\<lambda>r.
      if client_id r = i then r\<lparr>priority := p\<rparr>
      else if status r = status c \<and> p \<le> priority r \<and> priority r < priority c
           then r\<lparr>priority := priority r + 1\<rparr>
           else if status r = status c \<and> priority c < priority r \<and> priority r \<le> p
                then r\<lparr>priority := priority r - 1\<rparr>
                else r) (rows d)"
    unfolding rows_run rows_shifted [OF refl assms(1,2)] map_map
    by (rule map_cong [OF refl]) simp
  ultimately show ?thesis by blast
qed

section \<open>Rows after a change of the lane with a priority\<close>

lemma ids_assign_status [simp]: "map client_id (assign_status i l cs) = map client_id cs"
  by (induction cs) simp_all

lemma find_assign_status:
  "distinct (map client_id cs) \<Longrightarrow> r \<in> set cs \<Longrightarrow>
   find (\<lambda>c. client_id c = client_id r) (assign_status i l cs) =
     Some (if client_id r = i then r\<lparr>status := l\<rparr> else r)"
proof (induction cs)
  case Nil
  then show ?case by simp
next
  case (Cons c cs)
  show ?case
  proof (cases "r = c")
    case True
    then show ?thesis by simp
  next
    case False
    with Cons.prems have r: "r \<in> set cs" and ne: "client_id c \<noteq> client_id r"
      by (auto simp: image_iff)
    from Cons.prems have dist: "distinct (map client_id cs)" by simp
    show ?thesis
    proof (cases "client_id c = i")
      case True
      with ne show ?thesis by (simp add: find_by_id [OF dist r])
    next
      case False
      with ne show ?thesis by (simp add: Cons.IH [OF dist r])
    qed
  qed
qed

lemma rows_push_down:
  fixes cs :: "'a client_scheme list" and d :: "'a store"
  assumes "distinct (map client_id cs)" and "rows d = map h cs"
    and "\<And>r. client_id (h r) = client_id r"
  shows "rows (push_down (assign_status i l cs) p l d) =
    map (\<lambda>r. if p \<le> priority r \<and> (client_id r = i \<or> status r = l)
              then (h r)\<lparr>priority := priority r + 1\<rparr> else h r) cs"
proof -
  have dist: "distinct (map client_id (assign_status i l cs))"
    using assms(1) by simp
  show ?thesis
    unfolding push_down_def rows_foldl_set_priority [OF dist] assms(2) map_map
    by (rule map_cong [OF refl]) (auto simp: assms(3) find_assign_status [OF assms(1)])
qed

lemma rows_status_and_priority_branch:
  fixes cs :: "'a client_scheme list" and d :: "'a store"
  assumes "distinct (map client_id cs)" and "rows d = map h cs"
    and "l \<noteq> status c"
    and only_priority: "\<And>r. h r = r\<lparr>priority := priority (h r)\<rparr>"
    and untouched: "\<And>r. r \<in> set cs \<Longrightarrow> client_id r \<noteq> i \<Longrightarrow> \<not> (status r = l \<and> p \<le> priority r) \<Longrightarrow> h r = r"
  shows "rows (status_and_priority_branch cs c l p i d) =
    map (\<lambda>r. if client_id r = i then r\<lparr>status := l, priority := p\<rparr>
              else if status r = l \<and> p \<le> priority r then r\<lparr>priority := priority r + 1\<rparr>
              else if status r = status c \<and> priority r > priority c
                   then r\<lparr>priority := priority r - 1\<rparr>
                   else r) cs"
proof -
  have ids: "client_id (h r) = client_id r" for r
    by (subst only_priority) simp
  define d2 where "d2 = run (SetStatusPriority l p i) (push_down (assign_status i l cs) p l d)"
  have rows2: "rows d2 = map (\<lambda>r. if client_id r = i then r\<lparr>status := l, priority := p\<rparr>
              else if status r = l \<and> p \<le> priority r then r\<lparr>priority := priority r + 1\<rparr>
              else r) cs"
    unfolding d2_def rows_run rows_push_down [OF assms(1,2) ids] map_map
  proof (rule map_cong [OF refl])
    fix r assume r: "r \<in> set cs"
    have target: "(h r)\<lparr>status := l, priority := p\<rparr> = r\<lparr>status := l, priority := p\<rparr>"
      by (subst only_priority) simp
    have other: "(h r)\<lparr>priority := priority r + 1\<rparr> = r\<lparr>priority := priority r + 1\<rparr>"
      by (subst only_priority) simp
    show "(apply_update (SetStatusPriority l p i) \<circ>
          (\<lambda>r. if p \<le> priority r \<and> (client_id r = i \<or> status r = l)
                then (h r)\<lparr>priority := priority r + 1\<rparr> else h r)) r =
         (if client_id r = i then r\<lparr>status := l, priority := p\<rparr>
          else if status r = l \<and> p \<le> priority r then r\<lparr>priority := priority r + 1\<rparr>
          else r)"
      using untouched [OF r] by (auto simp: ids target other)
  qed
  have "map client_id (rows d2) = map client_id cs"
    unfolding rows2 by (simp add: comp_def cong: map_cong)
  with assms(1) have dist2: "distinct (map client_id (rows d2))" by simp
  have "rows (status_and_priority_branch cs c l p i d) = rows (pull_up (rows d2) (priority c) (status c) d2)"
    by (simp add: status_and_priority_branch_def Let_def d2_def)
  also have "\<dots> = map (\<lambda>r. if client_id r = i then r\<lparr>status := l, priority := p\<rparr>
              else if status r = l \<and> p \<le> priority r then r\<lparr>priority := priority r + 1\<rparr>
              else if status r = status c \<and> priority r > priority c
                   then r\<lparr>priority := priority r - 1\<rparr>
                   else r) cs"
    unfolding rows_pull_up [OF dist2] unfolding rows2 map_map
    using assms(3) by (intro map_cong [OF refl]) auto
  finally show ?thesis .
qed

section \<open>The multiset of the ranks 1 to n\<close>

lemma mset_upto_set: "mset [i..j] = mset_set {i..j}"
  by (metis distinct_upto mset_set_set set_upto)

lemma insert_rank:
  fixes p :: int
  assumes "p \<in> A" and "finite A"
  shows "add_mset p (mset_set (A - {p})) = mset_set A"
  using assms by (simp add: mset_set.remove)

lemma ranks_append:
  assumes "0 \<le> n"
  shows "add_mset (n + 1) (mset [1..n]) = mset [1..n + 1]"
proof -
  have "[1..n + 1] = [1..n] @ [n + 1]"
    using assms upto_rec2 [of 1 "n + 1"] by simp
  then show ?thesis by simp
qed

lemma ranks_close_gap:
  fixes old n :: int
  assumes "1 \<le> old" and "old \<le> n"
  shows "image_mset (\<lambda>x. if x > old then x - 1 else x) (mset [1..n] - {#old#}) =
    mset [1..n - 1]"
proof -
  define f where "f = (\<lambda>x :: int. if x > old then x - 1 else x)"
  have "mset [1..n] - {#old#} = mset_set ({1..n} - {old})"
    using assms by (simp add: mset_upto_set mset_set_Diff)
  moreover have "inj_on f ({1..n} - {old})"
    by (auto simp: inj_on_def f_def split: if_splits)
  moreover have "f ` ({1..n} - {old}) = {1..n - 1}"
  proof (intro equalityI subsetI)
    fix y assume "y \<in> f ` ({1..n} - {old})"
    with assms show "y \<in> {1..n - 1}" by (auto simp: f_def split: if_splits)
  next
    fix y assume y: "y \<in> {1..n - 1}"
    show "y \<in> f ` ({1..n} - {old})"
    proof (cases "y < old")
      case True
      with y have "y = f y" "y \<in> {1..n} - {old}" by (auto simp: f_def)
      then show ?thesis by (rule image_eqI)
    next
      case False
      with y have "y = f (y + 1)" "y + 1 \<in> {1..n} - {old}" by (auto simp: f_def)
      then show ?thesis by (rule image_eqI)
    qed
  qed
  ultimately show ?thesis by (simp add: image_mset_mset_set mset_upto_set f_def)
qed

lemma ranks_insert:
  fixes p n :: int
  assumes "1 \<le> p" and "p \<le> n + 1"
  shows "add_mset p (image_mset (\<lambda>x. if p \<le> x then x + 1 else x) (mset [1..n])) =
    mset [1..n + 1]"
proof -
  define f where "f = (\<lambda>x :: int. if p \<le> x then x + 1 else x)"
  have inj: "inj_on f {1..n}"
    by (auto simp: inj_on_def f_def split: if_splits)
  have img: "f ` {1..n} = {1..n + 1} - {p}"
  proof (intro equalityI subsetI)
    fix y assume "y \<in> f ` {1..n}"
    with assms show "y \<in> {1..n + 1} - {p}" by (auto simp: f_def split: if_splits)
  next
    fix y assume y: "y \<in> {1..n + 1} - {p}"
    show "y \<in> f ` {1..n}"
    proof (cases "y < p")
      case True
      with y assms have "y = f y" "y \<in> {1..n}" by (auto simp: f_def)
      then show ?thesis by (rule image_eqI)
    next
      case False
      with y assms have "y = f (y - 1)" "y - 1 \<in> {1..n}" by (auto simp: f_def)
      then show ?thesis by (rule image_eqI)
    qed
  qed
  have "add_mset p (mset_set ({1..n + 1} - {p})) = mset_set {1..n + 1}"
    using assms by (intro insert_rank) simp_all
  then show ?thesis
    unfolding f_def [symmetric] by (simp only: mset_upto_set image_mset_mset_set [OF inj] img)
qed

lemma ranks_rotate:
  fixes p old n :: int
  assumes "1 \<le> p" and "p \<le> n" and "1 \<le> old" and "old \<le> n"
  shows "add_mset p (image_mset (\<lambda>x. if p \<le> x \<and> x < old then x + 1
                                      else if old < x \<and> x \<le> p then x - 1 else x)
           (mset [1..n] - {#old#})) = mset [1..n]"
proof -
  define f where "f = (\<lambda>x :: int. if p \<le> x \<and> x < old then x + 1 else if old < x \<and> x \<le> p then x - 1 else x)"
  have diff: "mset_set {1..n} - {#old#} = mset_set ({1..n} - {old})"
    using assms by (simp add: mset_set_Diff)
  have inj: "inj_on f ({1..n} - {old})"
    by (auto simp: inj_on_def f_def split: if_splits)
  have img: "f ` ({1..n} - {old}) = {1..n} - {p}"
  proof (intro equalityI subsetI)
    fix y assume "y \<in> f ` ({1..n} - {old})"
    with assms show "y \<in> {1..n} - {p}" by (auto simp: f_def split: if_splits)
  next
    fix y assume y: "y \<in> {1..n} - {p}"
    consider "p < y \<and> y \<le> old" | "old \<le> y \<and> y < p" | "\<not> (p < y \<and> y \<le> old) \<and> \<not> (old \<le> y \<and> y < p)"
      by blast
    then show "y \<in> f ` ({1..n} - {old})"
    proof cases
      case 1
      with y assms have "y = f (y - 1)" "y - 1 \<in> {1..n} - {old}" by (auto simp: f_def)
      then show ?thesis by (rule image_eqI)
    next
      case 2
      with y assms have "y = f (y + 1)" "y + 1 \<in> {1..n} - {old}" by (auto simp: f_def)
      then show ?thesis by (rule image_eqI)
    next
      case 3
      with y assms have "y = f y" "y \<in> {1..n} - {old}" by (auto simp: f_def)
      then show ?thesis by (rule image_eqI)
    qed
  qed
  have "add_mset p (mset_set ({1..n} - {p})) = mset_set {1..n}"
    using assms by (intro insert_rank) simp_all
  then show ?thesis
    unfolding f_def [symmetric] by (simp only: mset_upto_set diff image_mset_mset_set [OF inj] img)
qed

section \<open>The priorities of a lane after a move of one client\<close>

lemma lane_append [simp]: "lane l (xs @ ys) = lane l xs @ lane l ys"
  by (simp add: lane_def)

lemma lane_Cons: "lane l (c # cs) = (if status c = l then c # lane l cs else lane l cs)"
  by (simp add: lane_def)

lemma lane_priorities_others:
  assumes "\<And>r. r \<in> set xs \<Longrightarrow> F r = r\<lparr>priority := g (status r) (priority r)\<rparr>"
  shows "map priority (lane l (map F xs)) = map (g l) (map priority (lane l xs))"
  using assms
proof (induction xs)
  case Nil
  then show ?case by (simp add: lane_def)
next
  case (Cons x xs)
  from Cons.prems have x: "F x = x\<lparr>priority := g (status x) (priority x)\<rparr>" by simp
  from Cons.prems have "map priority (lane l (map F xs)) = map (g l) (map priority (lane l xs))"
    by (intro Cons.IH) simp
  then show ?case by (simp add: lane_Cons x)
qed

lemma lane_priorities_after:
  fixes cs :: "'a client_scheme list"
  assumes "distinct (map client_id cs)"
    and "find (\<lambda>c. client_id c = i) cs = Some c"
    and others: "\<And>r. r \<in> set cs \<Longrightarrow> client_id r \<noteq> i \<Longrightarrow>
      F r = r\<lparr>priority := g (status r) (priority r)\<rparr>"
  shows "mset (map priority (lane l (map F cs))) =
    (if status (F c) = l then {#priority (F c)#} else {#}) +
    image_mset (g l)
      (mset (map priority (lane l cs)) - (if status c = l then {#priority c#} else {#}))"
proof -
  from find_id_sound [OF assms(2)] have c: "client_id c = i" "c \<in> set cs" by simp_all
  then obtain xs ys where cs: "cs = xs @ c # ys" by (meson split_list)
  with assms(1) c(1) have "\<forall>r \<in> set xs \<union> set ys. client_id r \<noteq> i"
    by (auto simp: image_iff)
  with others cs have
    xs: "\<And>r. r \<in> set xs \<Longrightarrow> F r = r\<lparr>priority := g (status r) (priority r)\<rparr>" and
    ys: "\<And>r. r \<in> set ys \<Longrightarrow> F r = r\<lparr>priority := g (status r) (priority r)\<rparr>"
    by simp_all
  have "mset (map priority (lane l (map F cs))) =
    mset (map priority (lane l (map F xs))) +
    (if status (F c) = l then {#priority (F c)#} else {#}) +
    mset (map priority (lane l (map F ys)))"
    by (simp add: cs lane_Cons)
  also have "\<dots> = (if status (F c) = l then {#priority (F c)#} else {#}) +
    image_mset (g l) (mset (map priority (lane l xs)) + mset (map priority (lane l ys)))"
    by (simp only: lane_priorities_others [of xs F g, OF xs] lane_priorities_others [of ys F g, OF ys])
       (simp add: multiset.map_comp)
  also have "mset (map priority (lane l xs)) + mset (map priority (lane l ys)) =
    mset (map priority (lane l cs)) - (if status c = l then {#priority c#} else {#})"
    by (simp add: cs lane_Cons)
  finally show ?thesis .
qed

section \<open>Dense lanes\<close>

lemma denseI:
  assumes "mset (map priority (lane l cs)) = mset [1..n]"
  shows "dense l cs"
proof -
  from assms have "size (mset (map priority (lane l cs))) = size (mset [1..n])" by simp
  then have len: "length (lane l cs) = nat n" by simp
  have "[1..int (nat n)] = [1..n]" by (cases "0 \<le> n") simp_all
  with assms len show ?thesis by (simp add: dense_def)
qed

lemma dense_priorities:
  assumes "dense l cs"
  shows "inj_on priority (set (lane l cs))"
    and "r \<in> set cs \<Longrightarrow> status r = l \<Longrightarrow> 1 \<le> priority r \<and> priority r \<le> int (length (lane l cs))"
proof -
  from assms have eq: "mset (map priority (lane l cs)) = mset [1..int (length (lane l cs))]"
    by (simp add: dense_def)
  then have "distinct (map priority (lane l cs))"
    using mset_eq_imp_distinct_iff distinct_upto by blast
  then show "inj_on priority (set (lane l cs))" by (simp add: distinct_map)
  assume "r \<in> set cs" "status r = l"
  then have "priority r \<in> set (map priority (lane l cs))" by (simp add: lane_def)
  also from eq have "set (map priority (lane l cs)) = set [1..int (length (lane l cs))]"
    by (rule mset_eq_setD)
  finally show "1 \<le> priority r \<and> priority r \<le> int (length (lane l cs))" by simp
qed

lemma max_priority_dense:
  assumes "dense l cs"
  shows "max_priority cs l = int (length (lane l cs))"
proof -
  let ?n = "int (length (lane l cs))"
  from assms have "mset (map priority (lane l cs)) = mset [1..?n]"
    by (simp add: dense_def)
  then have "set (map priority (lane l cs)) = set [1..?n]" by (rule mset_eq_setD)
  moreover have "{c \<in> set cs. status c = l} = set (lane l cs)" by (auto simp: lane_def)
  ultimately have "max_priority cs l = Max (insert 0 {1..?n})"
    by (simp add: max_priority_Max)
  also have "\<dots> = ?n"
  proof (cases "lane l cs = []")
    case True
    then show ?thesis by simp
  next
    case False
    then have "1 \<le> ?n" by (cases "lane l cs") simp_all
    then show ?thesis by (intro Max_eqI) auto
  qed
  finally show ?thesis .
qed

lemma rows_both_changed:
  fixes d :: "'a store"
  assumes "distinct (map client_id (rows d))"
    and "inj_on priority (set (lane l (rows d)))"
    and "find (\<lambda>c. client_id c = i) (rows d) = Some c"
    and "l \<noteq> []" and "l \<noteq> status c" and "p \<noteq> 0" and "p \<le> priority c + 1"
  shows "\<exists>d'. put_client i (Some l) (Some p) d = Some (Inr d') \<and>
    rows d' = map (\<lambda>r.
      if client_id r = i then r\<lparr>status := l, priority := p\<rparr>
      else if status r = l \<and> p \<le> priority r then r\<lparr>priority := priority r + 1\<rparr>
      else if status r = status c \<and> priority r > priority c
           then r\<lparr>priority := priority r - 1\<rparr>
           else r) (rows d)"
proof -
  define d1 where "d1 = (if p \<noteq> priority c
    then run (SetPriority p i) (shifted (rows d) (Some l) (priority c) p d) else d)"
  define h where "h = (\<lambda>r :: 'a client_scheme. if p \<noteq> priority c
    then apply_update (SetPriority p i)
      (if status r = l \<and> p \<le> priority r \<and> priority r < priority c
       then r\<lparr>priority := priority r + 1\<rparr>
       else if status r = l \<and> priority c < priority r \<and> priority r \<le> p
            then r\<lparr>priority := priority r - 1\<rparr> else r)
    else r)"
  have put: "put_client i (Some l) (Some p) d =
      Some (Inr (status_and_priority_branch (rows d) c l p i d1))"
    unfolding d1_def using assms(3-6) by (rule put_client_status_and_priority)
  have rows1: "rows d1 = map h (rows d)"
    by (simp add: d1_def h_def rows_shifted [OF refl assms(1,2)])
  have only_priority: "h r = r\<lparr>priority := priority (h r)\<rparr>" for r
    by (simp add: h_def)
  have untouched: "h r = r" if "client_id r \<noteq> i" "\<not> (status r = l \<and> p \<le> priority r)" for r
    using that assms(7) by (auto simp: h_def)
  from rows_status_and_priority_branch [of "rows d" d1 h l c, OF assms(1) rows1 assms(5) only_priority untouched]
  have "rows (status_and_priority_branch (rows d) c l p i d1) = map (\<lambda>r.
      if client_id r = i then r\<lparr>status := l, priority := p\<rparr>
      else if status r = l \<and> p \<le> priority r then r\<lparr>priority := priority r + 1\<rparr>
      else if status r = status c \<and> priority r > priority c
           then r\<lparr>priority := priority r - 1\<rparr>
           else r) (rows d)"
    by blast
  with put show ?thesis by blast
qed

section \<open>Invariant I1 after a move\<close>

lemma I1_after:
  fixes cs :: "'a client_scheme list"
  assumes "distinct (map client_id cs)"
    and "find (\<lambda>c. client_id c = i) cs = Some c"
    and "I1 cs"
    and others: "\<And>r. r \<in> set cs \<Longrightarrow> client_id r \<noteq> i \<Longrightarrow>
      F r = r\<lparr>priority := g (status r) (priority r)\<rparr>"
    and lanes: "\<And>l. \<exists>n. (if status (F c) = l then {#priority (F c)#} else {#}) +
      image_mset (g l) (mset [1..int (length (lane l cs))] -
        (if status c = l then {#priority c#} else {#})) = mset [1..n]"
  shows "I1 (map F cs)"
  unfolding I1_all_lanes
proof
  fix l
  from assms(3) have "mset (map priority (lane l cs)) = mset [1..int (length (lane l cs))]"
    by (simp add: I1_all_lanes dense_def)
  with lane_priorities_after [of cs i c F g l, OF assms(1,2) others] lanes [of l]
  obtain n where "mset (map priority (lane l (map F cs))) = mset [1..n]"
    by auto
  then show "dense l (map F cs)" by (rule denseI)
qed

lemma target_rank:
  assumes "find (\<lambda>c. client_id c = i) cs = Some c" and "I1 cs"
  shows "1 \<le> priority c" and "priority c \<le> int (length (lane (status c) cs))"
proof -
  from assms(2) have "dense (status c) cs" by (simp add: I1_all_lanes)
  from dense_priorities(2) [OF this, of c] find_id_sound [OF assms(1)]
  show "1 \<le> priority c" and "priority c \<le> int (length (lane (status c) cs))" by simp_all
qed

lemma I1_status_only:
  fixes cs :: "'a client_scheme list"
  assumes "distinct (map client_id cs)"
    and "find (\<lambda>c. client_id c = i) cs = Some c"
    and "I1 cs" and "l \<noteq> status c"
  shows "I1 (map (\<lambda>r. if client_id r = i then r\<lparr>status := l, priority := max_priority cs l + 1\<rparr>
              else if priority r > priority c \<and> status r = status c
                   then r\<lparr>priority := priority r - 1\<rparr> else r) cs)"
proof (rule I1_after [OF assms(1-3),
    where g = "\<lambda>l' x. if l' = status c \<and> x > priority c then x - 1 else x"])
  fix r :: "'a client_scheme"
  assume "r \<in> set cs" "client_id r \<noteq> i"
  then show "(if client_id r = i then r\<lparr>status := l, priority := max_priority cs l + 1\<rparr>
        else if priority c < priority r \<and> status r = status c
             then r\<lparr>priority := priority r - 1\<rparr> else r) =
    r\<lparr>priority := if status r = status c \<and> priority c < priority r then priority r - 1 else priority r\<rparr>"
    by simp
next
  fix l'
  from find_id_sound [OF assms(2)] have i: "client_id c = i" by simp
  from assms(3) have m: "max_priority cs l = int (length (lane l cs))"
    by (simp add: I1_all_lanes max_priority_dense)
  note rank = target_rank [OF assms(2,3)]
  consider "l' = l" | "l' = status c" | "l' \<noteq> l \<and> l' \<noteq> status c" by blast
  then show "\<exists>n. (if status (if client_id c = i then c\<lparr>status := l, priority := max_priority cs l + 1\<rparr>
              else if priority c < priority c \<and> status c = status c
                   then c\<lparr>priority := priority c - 1\<rparr> else c) = l'
         then {#priority (if client_id c = i then c\<lparr>status := l, priority := max_priority cs l + 1\<rparr>
              else if priority c < priority c \<and> status c = status c
                   then c\<lparr>priority := priority c - 1\<rparr> else c)#} else {#}) +
      image_mset (\<lambda>x. if l' = status c \<and> priority c < x then x - 1 else x)
        (mset [1..int (length (lane l' cs))] - (if status c = l' then {#priority c#} else {#})) =
      mset [1..n]"
  proof cases
    case 1
    with assms(4) show ?thesis
      using ranks_append [of "int (length (lane l cs))"] by (auto simp: i m)
  next
    case 2
    with assms(4) show ?thesis
      using ranks_close_gap [OF rank] by (auto simp: i)
  next
    case 3
    then show ?thesis by (auto simp: i)
  qed
qed

lemma I1_both_changed:
  fixes cs :: "'a client_scheme list"
  assumes "distinct (map client_id cs)"
    and "find (\<lambda>c. client_id c = i) cs = Some c"
    and "I1 cs" and "l \<noteq> status c"
    and "1 \<le> p" and "p \<le> int (length (lane l cs)) + 1"
  shows "I1 (map (\<lambda>r. if client_id r = i then r\<lparr>status := l, priority := p\<rparr>
      else if status r = l \<and> p \<le> priority r then r\<lparr>priority := priority r + 1\<rparr>
      else if status r = status c \<and> priority r > priority c
           then r\<lparr>priority := priority r - 1\<rparr>
           else r) cs)"
proof (rule I1_after [OF assms(1-3),
    where g = "\<lambda>l' x. if l' = l \<and> p \<le> x then x + 1
                        else if l' = status c \<and> x > priority c then x - 1 else x"])
  fix r :: "'a client_scheme"
  assume "r \<in> set cs" "client_id r \<noteq> i"
  then show "(if client_id r = i then r\<lparr>status := l, priority := p\<rparr>
      else if status r = l \<and> p \<le> priority r then r\<lparr>priority := priority r + 1\<rparr>
      else if status r = status c \<and> priority r > priority c
           then r\<lparr>priority := priority r - 1\<rparr>
           else r) =
    r\<lparr>priority := if status r = l \<and> p \<le> priority r then priority r + 1
                    else if status r = status c \<and> priority c < priority r then priority r - 1
                         else priority r\<rparr>"
    by simp
next
  fix l'
  from find_id_sound [OF assms(2)] have i: "client_id c = i" by simp
  note rank = target_rank [OF assms(2,3)]
  consider "l' = l" | "l' = status c" | "l' \<noteq> l \<and> l' \<noteq> status c" by blast
  then show "\<exists>n. (if status (if client_id c = i then c\<lparr>status := l, priority := p\<rparr>
      else if status c = l \<and> p \<le> priority c then c\<lparr>priority := priority c + 1\<rparr>
      else if status c = status c \<and> priority c > priority c
           then c\<lparr>priority := priority c - 1\<rparr>
           else c) = l'
         then {#priority (if client_id c = i then c\<lparr>status := l, priority := p\<rparr>
      else if status c = l \<and> p \<le> priority c then c\<lparr>priority := priority c + 1\<rparr>
      else if status c = status c \<and> priority c > priority c
           then c\<lparr>priority := priority c - 1\<rparr>
           else c)#} else {#}) +
      image_mset (\<lambda>x. if l' = l \<and> p \<le> x then x + 1
                        else if l' = status c \<and> x > priority c then x - 1 else x)
        (mset [1..int (length (lane l' cs))] - (if status c = l' then {#priority c#} else {#})) =
      mset [1..n]"
  proof cases
    case 1
    with assms(4) have g: "(\<lambda>x. if l' = l \<and> p \<le> x then x + 1
                        else if l' = status c \<and> x > priority c then x - 1 else x) =
        (\<lambda>x. if p \<le> x then x + 1 else x)"
      by auto
    from 1 assms(4) show ?thesis
      unfolding g using ranks_insert [OF assms(5,6)] by (auto simp: i)
  next
    case 2
    with assms(4) show ?thesis
      using ranks_close_gap [OF rank] by (auto simp: i)
  next
    case 3
    then show ?thesis by (auto simp: i)
  qed
qed

lemma I1_priority_only:
  fixes cs :: "'a client_scheme list"
  assumes "distinct (map client_id cs)"
    and "find (\<lambda>c. client_id c = i) cs = Some c"
    and "I1 cs"
    and "1 \<le> p" and "p \<le> int (length (lane (status c) cs))"
  shows "I1 (map (\<lambda>r. if client_id r = i then r\<lparr>priority := p\<rparr>
      else if status r = status c \<and> p \<le> priority r \<and> priority r < priority c
           then r\<lparr>priority := priority r + 1\<rparr>
           else if status r = status c \<and> priority c < priority r \<and> priority r \<le> p
                then r\<lparr>priority := priority r - 1\<rparr>
                else r) cs)"
proof (rule I1_after [OF assms(1-3),
    where g = "\<lambda>l' x. if l' = status c \<and> p \<le> x \<and> x < priority c then x + 1
                        else if l' = status c \<and> priority c < x \<and> x \<le> p then x - 1 else x"])
  fix r :: "'a client_scheme"
  assume "r \<in> set cs" "client_id r \<noteq> i"
  then show "(if client_id r = i then r\<lparr>priority := p\<rparr>
      else if status r = status c \<and> p \<le> priority r \<and> priority r < priority c
           then r\<lparr>priority := priority r + 1\<rparr>
           else if status r = status c \<and> priority c < priority r \<and> priority r \<le> p
                then r\<lparr>priority := priority r - 1\<rparr>
                else r) =
    r\<lparr>priority := if status r = status c \<and> p \<le> priority r \<and> priority r < priority c
                    then priority r + 1
                    else if status r = status c \<and> priority c < priority r \<and> priority r \<le> p
                         then priority r - 1 else priority r\<rparr>"
    by simp
next
  fix l'
  from find_id_sound [OF assms(2)] have i: "client_id c = i" by simp
  note rank = target_rank [OF assms(2,3)]
  show "\<exists>n. (if status (if client_id c = i then c\<lparr>priority := p\<rparr>
      else if status c = status c \<and> p \<le> priority c \<and> priority c < priority c
           then c\<lparr>priority := priority c + 1\<rparr>
           else if status c = status c \<and> priority c < priority c \<and> priority c \<le> p
                then c\<lparr>priority := priority c - 1\<rparr>
                else c) = l'
         then {#priority (if client_id c = i then c\<lparr>priority := p\<rparr>
      else if status c = status c \<and> p \<le> priority c \<and> priority c < priority c
           then c\<lparr>priority := priority c + 1\<rparr>
           else if status c = status c \<and> priority c < priority c \<and> priority c \<le> p
                then c\<lparr>priority := priority c - 1\<rparr>
                else c)#} else {#}) +
      image_mset (\<lambda>x. if l' = status c \<and> p \<le> x \<and> x < priority c then x + 1
                        else if l' = status c \<and> priority c < x \<and> x \<le> p then x - 1 else x)
        (mset [1..int (length (lane l' cs))] - (if status c = l' then {#priority c#} else {#})) =
      mset [1..n]"
  proof (cases "l' = status c")
    case True
    then have g: "(\<lambda>x. if l' = status c \<and> p \<le> x \<and> x < priority c then x + 1
                        else if l' = status c \<and> priority c < x \<and> x \<le> p then x - 1 else x) =
        (\<lambda>x. if p \<le> x \<and> x < priority c then x + 1
              else if priority c < x \<and> x \<le> p then x - 1 else x)"
      by auto
    from True show ?thesis
      unfolding g using ranks_rotate [OF assms(4,5) rank] by (auto simp: i)
  next
    case False
    then show ?thesis by (auto simp: i)
  qed
qed

section \<open>Invariant I1 across a call of the handler\<close>

text \<open>
  Claim C1, as the statement of the specification: at the request of priority 5 for
  client A in the lane backlog of three clients (an existing identifier, a valid lane,
  a positive priority), the rows before the call satisfy I1 and the rows after it do
  not: the priorities of the lane are 5, 1 and 2.
\<close>

theorem density_counterexample:
  "I1 [client_A, client_B, client_C] \<and>
   put_client 1 (Some ''backlog'') (Some 5) \<lparr>rows = [client_A, client_B, client_C], issued = []\<rparr> =
     Some (Inr \<lparr>rows = [client_A\<lparr>priority := 5\<rparr>, client_B\<lparr>priority := 1\<rparr>, client_C\<lparr>priority := 2\<rparr>],
                issued = [SetPriority 2 3, SetPriority 1 2, SetPriority 5 1]\<rparr>) \<and>
   \<not> I1 [client_A\<lparr>priority := 5\<rparr>, client_B\<lparr>priority := 1\<rparr>, client_C\<lparr>priority := 2\<rparr>]"
proof -
  let ?cs = "[client_A, client_B, client_C]"
  let ?d = "\<lparr>rows = ?cs, issued = []\<rparr>"
  have "I1 ?cs"
    by (simp add: I1_def dense_sort lane_def example_clients upto.simps)
  moreover have "shifted ?cs (Some ''backlog'') 1 5 ?d =
      \<lparr>rows = [client_A, client_B\<lparr>priority := 1\<rparr>, client_C\<lparr>priority := 2\<rparr>],
       issued = [SetPriority 2 3, SetPriority 1 2]\<rparr>"
    by (simp add: shifted_def eval_nat_numeral shift_down_body_def find_move_client_def
        example_clients run_def)
  then have "put_client 1 (Some ''backlog'') (Some 5) ?d =
     Some (Inr \<lparr>rows = [client_A\<lparr>priority := 5\<rparr>, client_B\<lparr>priority := 1\<rparr>, client_C\<lparr>priority := 2\<rparr>],
                issued = [SetPriority 2 3, SetPriority 1 2, SetPriority 5 1]\<rparr>)"
    by (simp add: put_client_def truthy_status_def truthy_priority_def priority_branch_returns
        example_clients run_def)
  moreover have "\<not> I1 [client_A\<lparr>priority := 5\<rparr>, client_B\<lparr>priority := 1\<rparr>, client_C\<lparr>priority := 2\<rparr>]"
    by (simp add: I1_def dense_sort lane_def example_clients upto.simps)
  ultimately show ?thesis by blast
qed

text \<open>
  Claim C1, amended. The clients have distinct identifiers and satisfy I1, the target
  exists, the lane of the request (when it names one) is not the empty string, and a
  priority \<open>p\<close> of the request is at least 1 and at most the number of clients that the
  lane of the request holds after the move: the size of the target's lane for a move
  within it, one more than the size of the new lane for a move into it. Two kinds of
  request are left out: a new priority with no status, and a change of the lane with a
  priority greater than the target's old priority plus one. Then the handler answers
  with a snapshot that satisfies I1.
\<close>

theorem density_preserved:
  fixes d :: "'a store"
  assumes ids: "distinct (map client_id (rows d))"
    and inv: "I1 (rows d)"
    and target: "find (\<lambda>c. client_id c = i) (rows d) = Some c"
    and lane_ok: "rs \<noteq> Some []"
    and range: "\<forall>p. rp = Some p \<longrightarrow> 1 \<le> p \<and>
        p \<le> int (length (lane (case rs of None \<Rightarrow> status c | Some l \<Rightarrow> l) (rows d))) +
            (if rs = None \<or> rs = Some (status c) then 0 else 1)"
    and named: "\<forall>p. rp = Some p \<and> p \<noteq> priority c \<longrightarrow> rs \<noteq> None"
    and not_below: "\<forall>p l. rp = Some p \<and> rs = Some l \<and> l \<noteq> status c \<longrightarrow> p \<le> priority c + 1"
  shows "\<exists>d'. put_client i rs rp d = Some (Inr d') \<and> I1 (rows d')"
proof -
  have unchanged: ?thesis
    if "\<not> (truthy_status rs \<and> rs \<noteq> Some (status c))"
      and "\<not> (truthy_priority rp \<and> rp \<noteq> Some (priority c))"
    using put_client_unchanged [OF target that] inv by simp
  show ?thesis
  proof (cases rp)
    case None
    show ?thesis
    proof (cases "truthy_status rs \<and> rs \<noteq> Some (status c)")
      case False
      with None show ?thesis by (intro unchanged) (simp_all add: truthy_priority_def)
    next
      case True
      then obtain l where l: "rs = Some l" "l \<noteq> []" "l \<noteq> status c"
        by (cases rs) (auto simp: truthy_status_def)
      have "put_client i (Some l) rp d = Some (Inr (status_only_branch (rows d) c l i d))"
        using target l(2,3) by (rule put_client_status_only) (simp add: None truthy_priority_def)
      moreover have "I1 (rows (status_only_branch (rows d) c l i d))"
        unfolding rows_status_only_branch [OF ids target l(3)]
        by (rule I1_status_only [OF ids target inv l(3)])
      ultimately show ?thesis using l(1) by simp
    qed
  next
    case (Some p)
    with range have p: "1 \<le> p" by simp
    show ?thesis
    proof (cases "truthy_status rs \<and> rs \<noteq> Some (status c)")
      case False
      show ?thesis
      proof (cases "p = priority c")
        case True
        with Some False show ?thesis by (intro unchanged) simp_all
      next
        case ne: False
        with named Some lane_ok False have rs: "rs = Some (status c)"
          by (cases rs) (auto simp: truthy_status_def)
        with range Some have le: "p \<le> int (length (lane (status c) (rows d)))" by simp
        from inv have "inj_on priority (set (lane (status c) (rows d)))"
          by (simp add: I1_all_lanes dense_priorities(1))
        from rows_priority_only [OF ids this target _ ne] p
        obtain d' where d': "put_client i (Some (status c)) (Some p) d = Some (Inr d')"
          "rows d' = map (\<lambda>r.
            if client_id r = i then r\<lparr>priority := p\<rparr>
            else if status r = status c \<and> p \<le> priority r \<and> priority r < priority c
                 then r\<lparr>priority := priority r + 1\<rparr>
                 else if status r = status c \<and> priority c < priority r \<and> priority r \<le> p
                      then r\<lparr>priority := priority r - 1\<rparr>
                      else r) (rows d)"
          by auto
        have "I1 (rows d')"
          unfolding d'(2) by (rule I1_priority_only [OF ids target inv p le])
        with d'(1) rs Some show ?thesis by simp
      qed
    next
      case True
      then obtain l where l: "rs = Some l" "l \<noteq> []" "l \<noteq> status c"
        by (cases rs) (auto simp: truthy_status_def)
      with range Some have le: "p \<le> int (length (lane l (rows d))) + 1" by simp
      from not_below Some l have below: "p \<le> priority c + 1" by simp
      from inv have "inj_on priority (set (lane l (rows d)))"
        by (simp add: I1_all_lanes dense_priorities(1))
      from rows_both_changed [OF ids this target l(2,3) _ below] p
      obtain d' where d': "put_client i (Some l) (Some p) d = Some (Inr d')"
        "rows d' = map (\<lambda>r.
          if client_id r = i then r\<lparr>status := l, priority := p\<rparr>
          else if status r = l \<and> p \<le> priority r then r\<lparr>priority := priority r + 1\<rparr>
          else if status r = status c \<and> priority r > priority c
               then r\<lparr>priority := priority r - 1\<rparr>
               else r) (rows d)"
        by auto
      have "I1 (rows d')"
        unfolding d'(2) by (rule I1_both_changed [OF ids target inv l(3) p le])
      with d'(1) l(1) Some show ?thesis by simp
    qed
  qed
qed

theorem density_preserved_witness:
  "distinct (map client_id (rows \<lparr>rows = [client_A, client_B, client_C, client_D], issued = []\<rparr>)) \<and>
   I1 (rows \<lparr>rows = [client_A, client_B, client_C, client_D], issued = []\<rparr>) \<and>
   find (\<lambda>c. client_id c = 3) (rows \<lparr>rows = [client_A, client_B, client_C, client_D], issued = []\<rparr>) = Some client_C \<and>
   Some ''in-progress'' \<noteq> Some [] \<and>
   (1 :: int) \<le> 1 \<and>
   1 \<le> int (length (lane ''in-progress'' (rows \<lparr>rows = [client_A, client_B, client_C, client_D], issued = []\<rparr>))) + 1 \<and>
   1 \<le> priority client_C + 1 \<and>
   (\<exists>d'. put_client 3 (Some ''in-progress'') (Some 1) \<lparr>rows = [client_A, client_B, client_C, client_D], issued = []\<rparr> = Some (Inr d') \<and>
      I1 (rows d'))"
proof -
  let ?d = "\<lparr>rows = [client_A, client_B, client_C, client_D], issued = []\<rparr>"
  have 1: "distinct (map client_id (rows ?d))" by (simp add: example_clients)
  have 2: "I1 (rows ?d)" by (simp add: I1_def dense_sort lane_def example_clients upto.simps)
  have 3: "find (\<lambda>c. client_id c = 3) (rows ?d) = Some client_C" by (simp add: example_clients)
  have 4: "Some ''in-progress'' \<noteq> Some []" by simp
  have 5: "(1 :: int) \<le> 1" "1 \<le> int (length (lane ''in-progress'' (rows ?d))) + 1"
    "1 \<le> priority client_C + 1"
    by (simp_all add: lane_def example_clients)
  have 6: "\<forall>p. Some (1 :: int) = Some p \<longrightarrow> 1 \<le> p \<and>
        p \<le> int (length (lane (case Some ''in-progress'' of None \<Rightarrow> status client_C | Some l \<Rightarrow> l) (rows ?d))) +
            (if Some ''in-progress'' = None \<or> Some ''in-progress'' = Some (status client_C) then 0 else 1)"
    using 5 by (simp add: example_clients)
  have 7: "\<forall>p. Some (1 :: int) = Some p \<and> p \<noteq> priority client_C \<longrightarrow> Some ''in-progress'' \<noteq> None"
    by simp
  have 8: "\<forall>p l. Some (1 :: int) = Some p \<and> Some ''in-progress'' = Some l \<and> l \<noteq> status client_C \<longrightarrow>
        p \<le> priority client_C + 1"
    using 5 by simp
  from density_preserved [OF 1 2 3 4 6 7 8] 1 2 3 4 5 show ?thesis by blast
qed

section \<open>The handler at the inputs where it leaves the specification\<close>

text \<open>
  Claim C2. Lane backlog holds A (priority 1), lane in-progress holds D (1) and E (2).
  The request moves A to in-progress with priority 3, so status and priority both change.
  The branch of line 151 runs first: its loop that moves down finds E in the new lane
  and sets its priority to 1, and the target's priority is set to 3; then the branch of
  line 232 runs. The comment at line 132 gives the first branch to a change of the
  priority only.
\<close>

theorem both_changed_runs_priority_branch:
  "put_client 1 (Some ''in-progress'') (Some 3) \<lparr>rows = [client_A, client_D, client_E], issued = []\<rparr> =
     Some (Inr \<lparr>rows = [client_A\<lparr>status := ''in-progress'', priority := 3\<rparr>, client_D,
                        client_E\<lparr>priority := 1\<rparr>],
                issued = [SetPriority 1 5, SetPriority 3 1, SetStatusPriority ''in-progress'' 3 1]\<rparr>)"
proof -
  let ?cs = "[client_A, client_D, client_E]"
  let ?d = "\<lparr>rows = ?cs, issued = []\<rparr>"
  have "shifted ?cs (Some ''in-progress'') 1 3 ?d =
      \<lparr>rows = [client_A, client_D, client_E\<lparr>priority := 1\<rparr>], issued = [SetPriority 1 5]\<rparr>"
    by (simp add: shifted_def eval_nat_numeral shift_down_body_def find_move_client_def example_clients run_def)
  then have "priority_branch ?cs client_A (Some ''in-progress'') 3 ?d =
      Some \<lparr>rows = [client_A\<lparr>priority := 3\<rparr>, client_D, client_E\<lparr>priority := 1\<rparr>],
            issued = [SetPriority 1 5, SetPriority 3 1]\<rparr>"
    by (simp add: priority_branch_returns example_clients run_def)
  then show ?thesis
    by (simp add: put_client_def truthy_status_def truthy_priority_def example_clients
        status_and_priority_branch_def push_down_def pull_up_def run_def)
qed

text \<open>
  Claim C3. Lane backlog holds A, B and C with the priorities 1, 2 and 3. The request
  for C names the priority 1 and no status: a change of the priority only. Clients A
  and B, whose priorities lie between the new and the old priority of C, keep their
  priorities; the one update sets the priority of C, and A and C both have priority 1.
  With the lane of the target named in the body, the rows are those of the claim
  (\<open>rows_priority_only\<close>).
\<close>

theorem priority_only_without_status_no_shift:
  "put_client 3 None (Some 1) \<lparr>rows = [client_A, client_B, client_C], issued = []\<rparr> =
     Some (Inr \<lparr>rows = [client_A, client_B, client_C\<lparr>priority := 1\<rparr>],
                issued = [SetPriority 1 3]\<rparr>)"
  by (simp add: put_client_def truthy_status_def truthy_priority_def priority_branch_returns
      example_clients run_def)

text \<open>
  Claim C5. Lane backlog holds A and B (priorities 1 and 2), lane in-progress holds D
  and E (priorities 1 and 2). The request moves A to in-progress with priority 3. No
  client of in-progress has a priority of 3 or more, so by the claim D and E stay as
  they are; the handler sets the priority of E to 1, the priority of D.
\<close>

theorem status_and_priority_modifies_other_client:
  "put_client 1 (Some ''in-progress'') (Some 3)
     \<lparr>rows = [client_A, client_B, client_D, client_E], issued = []\<rparr> =
     Some (Inr \<lparr>rows = [client_A\<lparr>status := ''in-progress'', priority := 3\<rparr>,
                        client_B\<lparr>priority := 1\<rparr>, client_D, client_E\<lparr>priority := 1\<rparr>],
                issued = [SetPriority 1 5, SetPriority 3 1,
                          SetStatusPriority ''in-progress'' 3 1, SetPriority 1 2]\<rparr>)"
proof -
  let ?cs = "[client_A, client_B, client_D, client_E]"
  let ?d = "\<lparr>rows = ?cs, issued = []\<rparr>"
  have "shifted ?cs (Some ''in-progress'') 1 3 ?d =
      \<lparr>rows = [client_A, client_B, client_D, client_E\<lparr>priority := 1\<rparr>],
       issued = [SetPriority 1 5]\<rparr>"
    by (simp add: shifted_def eval_nat_numeral shift_down_body_def find_move_client_def
        example_clients run_def)
  then have "priority_branch ?cs client_A (Some ''in-progress'') 3 ?d =
      Some \<lparr>rows = [client_A\<lparr>priority := 3\<rparr>, client_B, client_D, client_E\<lparr>priority := 1\<rparr>],
            issued = [SetPriority 1 5, SetPriority 3 1]\<rparr>"
    by (simp add: priority_branch_returns example_clients run_def)
  then show ?thesis
    by (simp add: put_client_def truthy_status_def truthy_priority_def example_clients
        status_and_priority_branch_def push_down_def pull_up_def run_def)
qed

end
